theory Spec2Isabelle
  imports Main
begin

section \<open>The data model of the cache (types.js)\<close>

text \<open>
  Timestamps are the numbers the injected clock returns (milliseconds); they are
  modelled as integers (integer-valued doubles). A hash is the string the caller's hasher
  returns. The store is the plain object \<open>store\<close> of \<open>createCache\<close>: it maps a hash to
  a cached-value object. The objects are shared by reference (a caller of \<open>getWith\<close>
  keeps the object it locked while the store slot may be overwritten), so the model
  keeps them in a heap and the store holds addresses. Hashes that name a member of
  \<open>Object.prototype\<close> are outside the model: the store is its own properties only.
\<close>

type_synonym Timestamp = int
type_synonym hash = string
type_synonym addr = nat

datatype error = ConfigError | TypeError | Thrown nat

record CacheOptions =
  size_opt :: "int option"
  expiry_opt :: "int option"

record 'v CachedValue =
  cvalue :: 'v
  insertionTimestamp :: Timestamp
  timestamp :: Timestamp
  locked :: int
  destroy :: "nat option"

text \<open>
  \<open>size_opt\<close> is \<open>options.size\<close>, \<open>expiry_opt\<close> is \<open>options.expiry\<close> read in
  milliseconds (\<open>options.expiry.in(MILLISECONDS)\<close>); \<open>None\<close> is an option left out.
  \<open>cvalue\<close> is the field \<open>value\<close>, \<open>destroy\<close> the optional callback (by identity).
\<close>

definition validateOptions :: "CacheOptions \<Rightarrow> error option" where
  "validateOptions options =
     (case size_opt options of
        None \<Rightarrow> None
      | Some n \<Rightarrow> if n \<le> 0 then Some ConfigError else None)"

subsection \<open>The store: an object with string keys\<close>

text \<open>
  The store is kept as the list of its properties in the order JavaScript enumerates
  them (\<open>Object.keys\<close>, \<open>_.toPairs\<close>): keys that are array indices first, in ascending
  numeric order, then the other keys in the order they were created.
\<close>

definition index_value :: "string \<Rightarrow> nat" where
  "index_value s = foldl (\<lambda>n c. 10 * n + (of_char c - 48)) 0 s"

definition is_digit :: "char \<Rightarrow> bool" where
  "is_digit c = (48 \<le> (of_char c :: nat) \<and> (of_char c :: nat) \<le> 57)"

definition is_array_index :: "string \<Rightarrow> bool" where
  "is_array_index s =
     (s \<noteq> [] \<and> list_all is_digit s \<and> (s = ''0'' \<or> hd s \<noteq> CHR ''0'')
      \<and> index_value s < 4294967295)"

fun insert_index :: "hash \<Rightarrow> addr \<Rightarrow> (hash \<times> addr) list \<Rightarrow> (hash \<times> addr) list" where
  "insert_index h a [] = [(h, a)]"
| "insert_index h a ((k, b) # rest) =
     (if is_array_index k \<and> index_value k < index_value h
      then (k, b) # insert_index h a rest
      else (h, a) # (k, b) # rest)"

definition store_put :: "hash \<Rightarrow> addr \<Rightarrow> (hash \<times> addr) list \<Rightarrow> (hash \<times> addr) list" where
  "store_put h a st =
     (if h \<in> fst ` set st then map (\<lambda>(k, b). (k, if k = h then a else b)) st
      else if is_array_index h then insert_index h a st
      else st @ [(h, a)])"

definition store_delete :: "hash \<Rightarrow> (hash \<times> addr) list \<Rightarrow> (hash \<times> addr) list" where
  "store_delete h st = filter (\<lambda>(k, b). k \<noteq> h) st"

text \<open>
  The test \<open>hash in store\<close> of \<open>getOrInsertCachedValue\<close> is also true of the names a
  plain object inherits from \<open>Object.prototype\<close>. For these hashes the code never calls
  the factory; the statements below that say what happens when a hash is not in the
  store leave them out.
\<close>

definition inherited :: "hash \<Rightarrow> bool" where
  "inherited h \<longleftrightarrow>
     h \<in> set [''constructor'', ''hasOwnProperty'', ''isPrototypeOf'', ''propertyIsEnumerable'',
              ''toLocaleString'', ''toString'', ''valueOf'', ''__proto__'',
              ''__defineGetter__'', ''__defineSetter__'', ''__lookupGetter__'',
              ''__lookupSetter__'']"

subsection \<open>Expiry and the eviction candidates of a trim pass\<close>

text \<open>
  JavaScript numbers are IEEE doubles. The timestamps and the expiry are integer-valued
  doubles, and the sum of two of them is the double nearest to the exact sum, ties to
  the even significand: exact up to \<open>2^53\<close> in magnitude, a multiple of the unit in the
  last place beyond. (A sum that overflows to an infinity compares with a finite double
  as the rounded integer here does.)
\<close>

function bit_length :: "int \<Rightarrow> nat" where
  "bit_length n = (if n \<le> 0 then 0 else Suc (bit_length (n div 2)))"
  by pat_completeness auto
termination
  by (relation "measure nat") auto

declare bit_length.simps [simp del]

definition double_round :: "int \<Rightarrow> int" where
  "double_round n =
     (if \<bar>n\<bar> \<le> 9007199254740992 then n
      else let u = 2 ^ (bit_length \<bar>n\<bar> - 53); q = n div u; r = n mod u in
        if 2 * r < u then q * u
        else if u < 2 * r then (q + 1) * u
        else if even q then q * u
        else (q + 1) * u)"

definition double_add :: "int \<Rightarrow> int \<Rightarrow> int" where
  "double_add a b = double_round (a + b)"

text \<open>
  \<open>isExpired\<close> reads \<open>store[hash]\<close>; here it takes the object found there.
  \<open>expiryInMilliseconds\<close> is tested for truthiness, so a zero duration never expires.
\<close>

definition isExpired :: "CacheOptions \<Rightarrow> 'v CachedValue \<Rightarrow> Timestamp \<Rightarrow> bool" where
  "isExpired options cv now =
     (case expiry_opt options of
        None \<Rightarrow> False
      | Some d \<Rightarrow> if d \<noteq> 0 then double_add (insertionTimestamp cv) d < now else False)"

text \<open>
  The first list of \<open>trim\<close>: the pairs of the store sorted by \<open>timestamp\<close> (lodash's
  \<open>sortBy\<close> is stable and ascending), reversed, without the first \<open>options.size\<close>.
\<close>

definition oldestValues ::
  "CacheOptions \<Rightarrow> 'v CachedValue list \<Rightarrow> (hash \<times> addr) list \<Rightarrow> hash list" where
  "oldestValues options hp st =
     (case size_opt options of
        None \<Rightarrow> []
      | Some n \<Rightarrow>
          if n \<noteq> 0
          then map fst (drop (nat n) (rev (sort_key (\<lambda>(h, a). timestamp (hp ! a)) st)))
          else [])"

definition expiredValues ::
  "CacheOptions \<Rightarrow> 'v CachedValue list \<Rightarrow> (hash \<times> addr) list \<Rightarrow> Timestamp \<Rightarrow> hash list" where
  "expiredValues options hp st now =
     (if expiry_opt options \<noteq> None
      then map fst (filter (\<lambda>(h, a). isExpired options (hp ! a) now) st)
      else [])"

section \<open>The engine as a transition system (cache.js)\<close>

text \<open>
  JavaScript runs one block of code at a time and gives control away only at an
  \<open>await\<close>. Each event of the model is one such block, run to its next \<open>await\<close>;
  the events of logically concurrent callers interleave in any order. What the
  collaborators do is part of the event, not of the engine: the result of a factory,
  destroy or transformer call arrives as an event of its own, the i-th reading of the
  injected clock is \<open>clock env i\<close>, and \<open>throws env i\<close> says whether the callback
  invoked as the i-th entry of the log throws synchronously instead of returning.
\<close>

record 'k env =
  options :: CacheOptions
  hasher :: "'k \<Rightarrow> hash"
  clock :: "nat \<Rightarrow> Timestamp"
  throws :: "nat \<Rightarrow> nat option"

datatype ('k, 'v) obs =
    FactoryCall 'k
  | DestroyCall addr
  | TransformerCall nat 'v
  | MultiTransformerCall nat "('k \<times> 'v) list"

text \<open>
  One run of \<open>getCachedValue\<close>. \<open>Waiting\<close>: inside \<open>waitUntil\<close>; \<open>Resumed\<close>:
  \<open>waitUntil\<close> has returned and line 143 runs next; \<open>Creating\<close>: \<open>addToStore\<close>
  awaits \<open>create(key)\<close>; \<open>Shrinking a t rej\<close>: the object at \<open>a\<close> is in the store and
  \<open>shrinkCache\<close> awaits the trim pass \<open>t\<close> (\<open>rej\<close>: one of its promises is already
  rejected); \<open>Finishing a e\<close>: \<open>addToStore\<close> awaits \<open>shrinkCache\<close>, its \<open>finally\<close>
  runs next; \<open>Settled r\<close>: the promise of \<open>getCachedValue\<close> is settled.
\<close>

datatype phase =
    Waiting
  | Resumed
  | Creating
  | Shrinking addr nat bool
  | Finishing addr "error option"
  | Settled "error + addr"

record 'k fetch =
  fkey :: 'k
  fhash :: hash
  fnow :: Timestamp
  fphase :: phase

text \<open>One callback of the \<open>Promise.all\<close> of \<open>trim\<close> that awaits \<open>destroy()\<close>.\<close>

record removal =
  rhash :: hash
  rtrim :: nat
  rpending :: bool

datatype 'k request =
    RGet 'k
  | RGetMultiple "'k list"
  | RGetWith 'k
  | RGetMultipleWith "'k list"
  | RCleanup

datatype 'x child = Pending nat | ChildOk 'x | ChildErr error

datatype ('k, 'v) outcome =
    Rejected error
  | Value 'v
  | Values "('k \<times> 'v) list"
  | Transformed nat
  | Unit

text \<open>
  Where a public call stands. \<open>Abandoned\<close>: the \<open>Promise.all\<close> of \<open>getMultipleWith\<close>
  has rejected and the caller has the error, while the callbacks of the other keys
  still run. \<open>CleanupShrinking\<close> is the timer's callback awaiting \<open>shrinkCache\<close>.
\<close>

datatype ('k, 'v) cphase =
    Get nat
  | GetMultiple "('k \<times> 'v child) list" "error option"
  | GetWith nat
  | GetWithLocked addr
  | GetMultipleWith "('k \<times> addr child) list" "error option"
  | Abandoned "('k \<times> addr child) list" error
  | GetMultipleWithLocked "('k \<times> addr) list"
  | CleanupShrinking "(nat \<times> bool) option"
  | Done "('k, 'v) outcome"

record ('k, 'v) state =
  heap :: "'v CachedValue list"
  store :: "(hash \<times> addr) list"
  initializing :: "hash set"
  shrinkLock :: bool
  fetches :: "'k fetch list"
  removals :: "removal list"
  calls :: "('k request \<times> ('k, 'v) cphase) list"
  log :: "('k, 'v) obs list"
  ticks :: nat
  trims :: nat

definition init :: "('k, 'v) state" where
  "init = \<lparr>heap = [], store = [], initializing = {}, shrinkLock = False, fetches = [],
           removals = [], calls = [], log = [], ticks = 0, trims = 0\<rparr>"

definition createCache :: "'k env \<Rightarrow> error + ('k, 'v) state" where
  "createCache env =
     (case validateOptions (options env) of Some e \<Rightarrow> Inl e | None \<Rightarrow> Inr init)"

definition currentSize :: "('k, 'v) state \<Rightarrow> nat" where
  "currentSize s = length (store s)"

definition invoke ::
  "'k env \<Rightarrow> ('k, 'v) obs \<Rightarrow> ('k, 'v) state \<Rightarrow> nat option \<times> ('k, 'v) state" where
  "invoke env ob s = (throws env (length (log s)), s\<lparr>log := log s @ [ob]\<rparr>)"

definition relock :: "addr \<Rightarrow> int \<Rightarrow> ('k, 'v) state \<Rightarrow> ('k, 'v) state" where
  "relock a d s =
     s\<lparr>heap := (heap s)[a := (heap s ! a)\<lparr>locked := locked (heap s ! a) + d\<rparr>]\<rparr>"

definition set_phase :: "nat \<Rightarrow> phase \<Rightarrow> ('k, 'v) state \<Rightarrow> ('k, 'v) state" where
  "set_phase fid ph s = s\<lparr>fetches := (fetches s)[fid := (fetches s ! fid)\<lparr>fphase := ph\<rparr>]\<rparr>"

definition set_call ::
  "nat \<Rightarrow> ('k, 'v) cphase \<Rightarrow> ('k, 'v) state \<Rightarrow> ('k, 'v) state" where
  "set_call cid cp s = s\<lparr>calls := (calls s)[cid := (fst (calls s ! cid), cp)]\<rparr>"

subsection \<open>trim and shrinkCache\<close>

text \<open>
  The callback \<open>trim\<close> maps over its candidates, up to its \<open>await\<close>. Reading
  \<open>store[hash].locked\<close> when the hash has left the store is a TypeError outside the
  \<open>try\<close>: the callback's promise is rejected (the flag becomes \<open>True\<close>).
\<close>

definition remove_candidate ::
  "'k env \<Rightarrow> nat \<Rightarrow> hash \<Rightarrow> bool \<times> ('k, 'v) state \<Rightarrow> bool \<times> ('k, 'v) state" where
  "remove_candidate env t h rs =
     (let rej = fst rs; s = snd rs in
      case map_of (store s) h of
        None \<Rightarrow> (True, s)
      | Some a \<Rightarrow>
          if locked (heap s ! a) > 0 then (rej, s)
          else (case destroy (heap s ! a) of
                  None \<Rightarrow> (rej, s\<lparr>store := store_delete h (store s)\<rparr>)
                | Some d \<Rightarrow>
                    (case invoke env (DestroyCall a) s of
                       (Some x, s1) \<Rightarrow> (rej, s1)
                     | (None, s1) \<Rightarrow>
                         (rej, s1\<lparr>removals := removals s1 @
                                  [\<lparr>rhash = h, rtrim = t, rpending = True\<rparr>]\<rparr>))))"

definition trim :: "'k env \<Rightarrow> Timestamp \<Rightarrow> ('k, 'v) state \<Rightarrow> bool \<times> ('k, 'v) state" where
  "trim env now s =
     fold (remove_candidate env (trims s))
       (oldestValues (options env) (heap s) (store s)
        @ expiredValues (options env) (heap s) (store s) now)
       (False, s\<lparr>trims := trims s + 1\<rparr>)"

definition shrinkCache ::
  "'k env \<Rightarrow> Timestamp \<Rightarrow> ('k, 'v) state \<Rightarrow> (nat \<times> bool) option \<times> ('k, 'v) state" where
  "shrinkCache env now s =
     (if shrinkLock s then (None, s)
      else if (case size_opt (options env) of
                 None \<Rightarrow> False
               | Some n \<Rightarrow> n \<noteq> 0 \<and> n < int (currentSize s))
              \<or> expiry_opt (options env) \<noteq> None
      then (case trim env now (s\<lparr>shrinkLock := True\<rparr>) of
              (rej, s1) \<Rightarrow> (Some (trims s, rej), s1))
      else (None, s))"

definition trim_settled :: "nat \<Rightarrow> ('k, 'v) state \<Rightarrow> bool" where
  "trim_settled t s = list_all (\<lambda>r. rtrim r \<noteq> t \<or> \<not> rpending r) (removals s)"

definition destroyDone :: "nat \<Rightarrow> bool \<Rightarrow> ('k, 'v) state \<Rightarrow> ('k, 'v) state option" where
  "destroyDone j ok s =
     (if j < length (removals s) \<and> rpending (removals s ! j)
      then Some (s\<lparr>removals := (removals s)[j := (removals s ! j)\<lparr>rpending := False\<rparr>],
                   store := if ok then store_delete (rhash (removals s ! j)) (store s)
                            else store s\<rparr>)
      else None)"

subsection \<open>addToStore and getOrInsertCachedValue\<close>

definition addToStore ::
  "'k env \<Rightarrow> 'k \<Rightarrow> hash \<Rightarrow> ('k, 'v) state \<Rightarrow> phase \<times> ('k, 'v) state" where
  "addToStore env key h s =
     (case invoke env (FactoryCall key) (s\<lparr>initializing := insert h (initializing s)\<rparr>) of
        (Some x, s1) \<Rightarrow> (Settled (Inl (Thrown x)), s1\<lparr>initializing := initializing s1 - {h}\<rparr>)
      | (None, s1) \<Rightarrow> (Creating, s1))"

definition refresh ::
  "addr \<Rightarrow> Timestamp \<Rightarrow> ('k, 'v) state \<Rightarrow> phase \<times> ('k, 'v) state" where
  "refresh a now s =
     (Settled (Inr a), s\<lparr>heap := (heap s)[a := (heap s ! a)\<lparr>timestamp := now\<rparr>]\<rparr>)"

text \<open>
  \<open>getOrInsertCachedValue\<close> from its entry to its first \<open>await\<close> or its return. On
  the last branch the hash is in the store, so the test of line 143 fails and lines
  146-147 run.
\<close>

definition getOrInsertCachedValue ::
  "'k env \<Rightarrow> 'k \<Rightarrow> hash \<Rightarrow> Timestamp \<Rightarrow> ('k, 'v) state \<Rightarrow> phase \<times> ('k, 'v) state" where
  "getOrInsertCachedValue env key h now s =
     (case map_of (store s) h of
        None \<Rightarrow> if h \<notin> initializing s then addToStore env key h s else (Waiting, s)
      | Some a \<Rightarrow>
          if isExpired (options env) (heap s ! a) now \<and> h \<notin> initializing s
          then addToStore env key h s
          else if h \<in> initializing s then (Waiting, s)
          else refresh a now s)"

text \<open>Lines 143-147 after \<open>waitUntil\<close> has returned.\<close>

definition afterWait ::
  "'k env \<Rightarrow> 'k \<Rightarrow> hash \<Rightarrow> Timestamp \<Rightarrow> ('k, 'v) state \<Rightarrow> phase \<times> ('k, 'v) state" where
  "afterWait env key h now s =
     (case map_of (store s) h of
        None \<Rightarrow> getOrInsertCachedValue env key h now s
      | Some a \<Rightarrow> refresh a now s)"

definition getCachedValue :: "'k env \<Rightarrow> 'k \<Rightarrow> ('k, 'v) state \<Rightarrow> nat \<times> ('k, 'v) state" where
  "getCachedValue env key s =
     (let h = hasher env key; now = clock env (ticks s) in
      case getOrInsertCachedValue env key h now (s\<lparr>ticks := ticks s + 1\<rparr>) of
        (ph, s1) \<Rightarrow>
          (length (fetches s1),
           s1\<lparr>fetches := fetches s1 @ [\<lparr>fkey = key, fhash = h, fnow = now, fphase = ph\<rparr>]\<rparr>))"

text \<open>
  \<open>addToStore\<close> after \<open>create(key)\<close> has returned: the new object, with both
  timestamps set to the \<open>now\<close> of the call, is assigned to \<open>store[hash]\<close>.
\<close>

definition published ::
  "'k fetch \<Rightarrow> 'v \<Rightarrow> nat option \<Rightarrow> ('k, 'v) state \<Rightarrow> ('k, 'v) state" where
  "published f v d s =
     s\<lparr>heap := heap s @ [\<lparr>cvalue = v, insertionTimestamp = fnow f, timestamp = fnow f,
                           locked = 0, destroy = d\<rparr>],
       store := store_put (fhash f) (length (heap s)) (store s)\<rparr>"

definition factoryDone ::
  "'k env \<Rightarrow> nat \<Rightarrow> error + 'v \<times> nat option \<Rightarrow> ('k, 'v) state \<Rightarrow> ('k, 'v) state option" where
  "factoryDone env fid res s =
     (if fid < length (fetches s) \<and> fphase (fetches s ! fid) = Creating
      then let f = fetches s ! fid in
        (case res of
           Inl e \<Rightarrow>
             Some (set_phase fid (Settled (Inl e))
                     (s\<lparr>initializing := initializing s - {fhash f}\<rparr>))
         | Inr (v, d) \<Rightarrow>
             (case shrinkCache env (fnow f) (published f v d s) of
                (None, s1) \<Rightarrow> Some (set_phase fid (Finishing (length (heap s)) None) s1)
              | (Some (t, rej), s1) \<Rightarrow>
                  Some (set_phase fid (Shrinking (length (heap s)) t rej) s1)))
      else None)"

definition poll :: "nat \<Rightarrow> ('k, 'v) state \<Rightarrow> ('k, 'v) state option" where
  "poll fid s =
     (if fid < length (fetches s) \<and> fphase (fetches s ! fid) = Waiting
         \<and> fhash (fetches s ! fid) \<notin> initializing s
      then Some (set_phase fid Resumed s)
      else None)"

definition resume :: "'k env \<Rightarrow> nat \<Rightarrow> ('k, 'v) state \<Rightarrow> ('k, 'v) state option" where
  "resume env fid s =
     (if fid < length (fetches s) \<and> fphase (fetches s ! fid) = Resumed
      then let f = fetches s ! fid in
        (case afterWait env (fkey f) (fhash f) (fnow f) s of
           (ph, s1) \<Rightarrow> Some (set_phase fid ph s1))
      else None)"

definition trimDone :: "nat \<Rightarrow> ('k, 'v) state \<Rightarrow> ('k, 'v) state option" where
  "trimDone fid s =
     (if fid < length (fetches s)
      then (case fphase (fetches s ! fid) of
              Shrinking a t rej \<Rightarrow>
                if rej \<or> trim_settled t s
                then Some (set_phase fid (Finishing a (if rej then Some TypeError else None))
                             (s\<lparr>shrinkLock := False\<rparr>))
                else None
            | _ \<Rightarrow> None)
      else None)"

definition finish :: "nat \<Rightarrow> ('k, 'v) state \<Rightarrow> ('k, 'v) state option" where
  "finish fid s =
     (if fid < length (fetches s)
      then (case fphase (fetches s ! fid) of
              Finishing a e \<Rightarrow>
                Some (set_phase fid (Settled (case e of None \<Rightarrow> Inr a | Some x \<Rightarrow> Inl x))
                        (s\<lparr>initializing := initializing s - {fhash (fetches s ! fid)}\<rparr>))
            | _ \<Rightarrow> None)
      else None)"

subsection \<open>The public operations\<close>

text \<open>
  \<open>fetch_all\<close> is \<open>keys.map(async key => ... await getCachedValue(key) ...)\<close> up to
  the \<open>await\<close> of each callback: every key reads the clock and enters
  \<open>getOrInsertCachedValue\<close> in the order of the list.
\<close>

primrec fetch_all ::
  "'k env \<Rightarrow> 'k list \<Rightarrow> ('k, 'v) state \<Rightarrow> ('k \<times> 'x child) list \<times> ('k, 'v) state" where
  "fetch_all env [] s = ([], s)"
| "fetch_all env (k # ks) s =
     (case getCachedValue env k s of
        (fid, s1) \<Rightarrow>
          (case fetch_all env ks s1 of (cs, s2) \<Rightarrow> ((k, Pending fid) # cs, s2)))"

definition call :: "'k env \<Rightarrow> 'k request \<Rightarrow> ('k, 'v) state \<Rightarrow> ('k, 'v) state option" where
  "call env rq s =
     (case rq of
        RGet k \<Rightarrow>
          (case getCachedValue env k s of
             (fid, s1) \<Rightarrow> Some (s1\<lparr>calls := calls s1 @ [(rq, Get fid)]\<rparr>))
      | RGetMultiple ks \<Rightarrow>
          (case fetch_all env ks s of
             (cs, s1) \<Rightarrow> Some (s1\<lparr>calls := calls s1 @ [(rq, GetMultiple cs None)]\<rparr>))
      | RGetWith k \<Rightarrow>
          (case getCachedValue env k s of
             (fid, s1) \<Rightarrow> Some (s1\<lparr>calls := calls s1 @ [(rq, GetWith fid)]\<rparr>))
      | RGetMultipleWith ks \<Rightarrow>
          (case fetch_all env ks s of
             (cs, s1) \<Rightarrow> Some (s1\<lparr>calls := calls s1 @ [(rq, GetMultipleWith cs None)]\<rparr>))
      | RCleanup \<Rightarrow>
          if expiry_opt (options env) \<noteq> None
          then (case shrinkCache env (clock env (ticks s)) (s\<lparr>ticks := ticks s + 1\<rparr>) of
                  (r, s1) \<Rightarrow> Some (s1\<lparr>calls := calls s1 @ [(rq, CleanupShrinking r)]\<rparr>))
          else None)"

definition settled :: "('k, 'v) state \<Rightarrow> nat \<Rightarrow> (error + addr) option" where
  "settled s fid =
     (if fid < length (fetches s)
      then (case fphase (fetches s ! fid) of Settled r \<Rightarrow> Some r | _ \<Rightarrow> None)
      else None)"

text \<open>
  The callback of one key of \<open>getMultipleWith\<close> after its \<open>await\<close>:
  \<open>cachedValue.locked++\<close>, or the rejection that \<open>Promise.all\<close> passes on (the first
  one is kept).
\<close>

definition lock_child ::
  "nat \<Rightarrow> ('k \<times> addr child) list \<Rightarrow> ('k, 'v) state
   \<Rightarrow> (('k \<times> addr child) list \<times> error option \<times> ('k, 'v) state) option" where
  "lock_child i cs s =
     (if i < length cs
      then (case snd (cs ! i) of
              Pending fid \<Rightarrow>
                (case settled s fid of
                   None \<Rightarrow> None
                 | Some (Inl e) \<Rightarrow> Some (cs[i := (fst (cs ! i), ChildErr e)], Some e, s)
                 | Some (Inr a) \<Rightarrow>
                     Some (cs[i := (fst (cs ! i), ChildOk a)], None, relock a 1 s))
            | _ \<Rightarrow> None)
      else None)"

definition first_error :: "error option \<Rightarrow> error option \<Rightarrow> error option" where
  "first_error err new = (case err of None \<Rightarrow> new | Some e \<Rightarrow> Some e)"

definition continue_call ::
  "'k env \<Rightarrow> nat \<Rightarrow> nat \<Rightarrow> ('k, 'v) state \<Rightarrow> ('k, 'v) state option" where
  "continue_call env cid i s =
     (if cid < length (calls s)
      then (case snd (calls s ! cid) of
          Get fid \<Rightarrow>
            (case settled s fid of
               None \<Rightarrow> None
             | Some (Inl e) \<Rightarrow> Some (set_call cid (Done (Rejected e)) s)
             | Some (Inr a) \<Rightarrow> Some (set_call cid (Done (Value (cvalue (heap s ! a)))) s))
        | GetMultiple cs err \<Rightarrow>
            (if i < length cs
             then (case snd (cs ! i) of
                     Pending fid \<Rightarrow>
                       (case settled s fid of
                          None \<Rightarrow> None
                        | Some (Inl e) \<Rightarrow>
                            Some (set_call cid
                                   (GetMultiple (cs[i := (fst (cs ! i), ChildErr e)])
                                      (first_error err (Some e))) s)
                        | Some (Inr a) \<Rightarrow>
                            Some (set_call cid
                                   (GetMultiple
                                      (cs[i := (fst (cs ! i), ChildOk (cvalue (heap s ! a)))])
                                      err) s))
                   | _ \<Rightarrow> None)
             else None)
        | GetWith fid \<Rightarrow>
            (case settled s fid of
               None \<Rightarrow> None
             | Some (Inl e) \<Rightarrow> Some (set_call cid (Done (Rejected e)) s)
             | Some (Inr a) \<Rightarrow>
                 (case invoke env (TransformerCall cid (cvalue (heap s ! a))) (relock a 1 s) of
                    (Some x, s1) \<Rightarrow>
                      Some (set_call cid (Done (Rejected (Thrown x))) (relock a (- 1) s1))
                  | (None, s1) \<Rightarrow> Some (set_call cid (GetWithLocked a) s1)))
        | GetMultipleWith cs err \<Rightarrow>
            (case lock_child i cs s of
               None \<Rightarrow> None
             | Some (cs1, new, s1) \<Rightarrow>
                 Some (set_call cid (GetMultipleWith cs1 (first_error err new)) s1))
        | Abandoned cs e \<Rightarrow>
            (case lock_child i cs s of
               None \<Rightarrow> None
             | Some (cs1, new, s1) \<Rightarrow> Some (set_call cid (Abandoned cs1 e) s1))
        | _ \<Rightarrow> None)
      else None)"

text \<open>The values of a \<open>Promise.all\<close> whose promises are all fulfilled, in their order.\<close>

fun collect :: "('k \<times> 'x child) list \<Rightarrow> ('k \<times> 'x) list option" where
  "collect [] = Some []"
| "collect ((k, ChildOk x) # cs) = map_option ((#) (k, x)) (collect cs)"
| "collect ((k, Pending fid) # cs) = None"
| "collect ((k, ChildErr e) # cs) = None"

definition unlock_all :: "('k \<times> addr) list \<Rightarrow> ('k, 'v) state \<Rightarrow> ('k, 'v) state" where
  "unlock_all kas s = fold (\<lambda>ka. relock (snd ka) (- 1)) kas s"

definition allDone :: "'k env \<Rightarrow> nat \<Rightarrow> ('k, 'v) state \<Rightarrow> ('k, 'v) state option" where
  "allDone env cid s =
     (if cid < length (calls s)
      then (case snd (calls s ! cid) of
          GetMultiple cs err \<Rightarrow>
            (case err of
               Some e \<Rightarrow> Some (set_call cid (Done (Rejected e)) s)
             | None \<Rightarrow>
                 (case collect cs of
                    None \<Rightarrow> None
                  | Some kvs \<Rightarrow> Some (set_call cid (Done (Values kvs)) s)))
        | GetMultipleWith cs err \<Rightarrow>
            (case err of
               Some e \<Rightarrow> Some (set_call cid (Abandoned cs e) s)
             | None \<Rightarrow>
                 (case collect cs of
                    None \<Rightarrow> None
                  | Some kas \<Rightarrow>
                      (case invoke env
                              (MultiTransformerCall cid
                                 (map (\<lambda>ka. (fst ka, cvalue (heap s ! snd ka))) kas)) s of
                         (Some x, s1) \<Rightarrow>
                           Some (set_call cid (Done (Rejected (Thrown x))) (unlock_all kas s1))
                       | (None, s1) \<Rightarrow> Some (set_call cid (GetMultipleWithLocked kas) s1))))
        | _ \<Rightarrow> None)
      else None)"

definition transformerDone ::
  "nat \<Rightarrow> error + nat \<Rightarrow> ('k, 'v) state \<Rightarrow> ('k, 'v) state option" where
  "transformerDone cid res s =
     (if cid < length (calls s)
      then (case snd (calls s ! cid) of
          GetWithLocked a \<Rightarrow>
            Some (set_call cid
                    (Done (case res of Inl e \<Rightarrow> Rejected e | Inr w \<Rightarrow> Transformed w))
                    (relock a (- 1) s))
        | GetMultipleWithLocked kas \<Rightarrow>
            Some (set_call cid
                    (Done (case res of Inl e \<Rightarrow> Rejected e | Inr w \<Rightarrow> Transformed w))
                    (unlock_all kas s))
        | _ \<Rightarrow> None)
      else None)"

definition cleanupDone :: "nat \<Rightarrow> ('k, 'v) state \<Rightarrow> ('k, 'v) state option" where
  "cleanupDone cid s =
     (if cid < length (calls s)
      then (case snd (calls s ! cid) of
          CleanupShrinking None \<Rightarrow> Some (set_call cid (Done Unit) s)
        | CleanupShrinking (Some (t, rej)) \<Rightarrow>
            if rej \<or> trim_settled t s
            then Some (set_call cid (Done (if rej then Rejected TypeError else Unit))
                         (s\<lparr>shrinkLock := False\<rparr>))
            else None
        | _ \<Rightarrow> None)
      else None)"

subsection \<open>Events and runs\<close>

datatype ('k, 'v) event =
    Call "'k request"
  | FactoryDone nat "error + 'v \<times> nat option"
  | Poll nat
  | Resume nat
  | TrimDone nat
  | Finish nat
  | DestroyDone nat bool
  | Continue nat nat
  | AllDone nat
  | TransformerDone nat "error + nat"
  | CleanupDone nat

definition step ::
  "'k env \<Rightarrow> ('k, 'v) event \<Rightarrow> ('k, 'v) state \<Rightarrow> ('k, 'v) state option" where
  "step env ev s =
     (case ev of
        Call rq \<Rightarrow> call env rq s
      | FactoryDone fid res \<Rightarrow> factoryDone env fid res s
      | Poll fid \<Rightarrow> poll fid s
      | Resume fid \<Rightarrow> resume env fid s
      | TrimDone fid \<Rightarrow> trimDone fid s
      | Finish fid \<Rightarrow> finish fid s
      | DestroyDone j ok \<Rightarrow> destroyDone j ok s
      | Continue cid i \<Rightarrow> continue_call env cid i s
      | AllDone cid \<Rightarrow> allDone env cid s
      | TransformerDone cid res \<Rightarrow> transformerDone cid res s
      | CleanupDone cid \<Rightarrow> cleanupDone cid s)"

fun run :: "'k env \<Rightarrow> ('k, 'v) event list \<Rightarrow> ('k, 'v) state \<Rightarrow> ('k, 'v) state option" where
  "run env [] s = Some s"
| "run env (ev # evs) s =
     (case step env ev s of None \<Rightarrow> None | Some s1 \<Rightarrow> run env evs s1)"

subsection \<open>Test fixtures\<close>

text \<open>
  The fixture of the repository's tests: keys are their own hashes, nothing throws
  synchronously, and the injected clock returns 0, 10, 20, ... on successive readings.
\<close>

definition fixture :: "int option \<Rightarrow> int option \<Rightarrow> string env" where
  "fixture sz ex =
     \<lparr>options = \<lparr>size_opt = sz, expiry_opt = ex\<rparr>, hasher = (\<lambda>k. k),
      clock = (\<lambda>i. 10 * int i), throws = (\<lambda>i. None)\<rparr>"


text \<open>
  Size 1 and expiry of 5 ms: \<open>get("a")\<close> at time 0, then \<open>get("b")\<close> at time 10,
  each awaited before the next call.
\<close>

definition duplicate_run :: "(string, nat) state option" where
  "duplicate_run =
     run (fixture (Some 1) (Some 5))
       [Call (RGet ''a''), FactoryDone 0 (Inr (1, None)), TrimDone 0, Finish 0, Continue 0 0,
        Call (RGet ''b''), FactoryDone 1 (Inr (2, None)), TrimDone 1, Finish 1, Continue 1 0]
       init"

text \<open>
  No bound: \<open>getMultipleWith(["a", "b"], t)\<close> where the factory returns a value for
  "a" and rejects for "b".
\<close>

definition leak_run :: "(string, nat) state option" where
  "leak_run =
     run (fixture None None)
       [Call (RGetMultipleWith [''a'', ''b'']), FactoryDone 0 (Inr (1, None)), Finish 0,
        Continue 0 0, FactoryDone 1 (Inl (Thrown 7)), Continue 0 1, AllDone 0] init"

text \<open>
  Expiry of 5 ms: \<open>getWith("x", t)\<close> at time 0 holds its lock (the transformer has
  not returned) while \<open>get("x")\<close> at time 10 finds the entry expired.
\<close>

definition replace_locked_run :: "(string, nat) state option" where
  "replace_locked_run =
     run (fixture None (Some 5))
       [Call (RGetWith ''x''), FactoryDone 0 (Inr (1, Some 0)), TrimDone 0, Finish 0,
        Continue 0 0, Call (RGet ''x''), FactoryDone 1 (Inr (2, Some 1))] init"

text \<open>
  Size 1, entries with a destroy callback: \<open>get("a")\<close>, then \<open>get("b")\<close> whose trim
  calls the destroy of "a"; before that destroy returns, \<open>getWith("a", t)\<close> locks the
  entry; then the destroy returns.
\<close>

definition destroy_race_run :: "(string, nat) state option" where
  "destroy_race_run =
     run (fixture (Some 1) None)
       [Call (RGet ''a''), FactoryDone 0 (Inr (1, Some 0)), Finish 0, Continue 0 0,
        Call (RGet ''b''), FactoryDone 1 (Inr (2, Some 1)),
        Call (RGetWith ''a''), Continue 2 0, DestroyDone 0 True] init"

text \<open>
  Size 1: "j" is cached; two \<open>get("k")\<close> are issued while no entry for "k" exists;
  \<open>get("j")\<close> is served from the cache while the factory of "k" runs; the entry of "k"
  is then the least recently accessed one when it is published.
\<close>

definition evicted_run :: "(string, nat) state option" where
  "evicted_run =
     run (fixture (Some 1) None)
       [Call (RGet ''j''), FactoryDone 0 (Inr (0, None)), Finish 0, Continue 0 0,
        Call (RGet ''k''), Call (RGet ''k''), Call (RGet ''j''), Continue 3 0,
        FactoryDone 1 (Inr (1, None)), TrimDone 1, Finish 1, Continue 1 0,
        Poll 2, Resume 2, FactoryDone 2 (Inr (2, None)), TrimDone 2, Finish 2, Continue 2 0]
       init"

text \<open>
  The states of the last two runs just before their last event: the entry of "x"
  (of "a") is in the store and locked.
\<close>

definition replace_locked_before :: "(string, nat) state option" where
  "replace_locked_before =
     run (fixture None (Some 5))
       [Call (RGetWith ''x''), FactoryDone 0 (Inr (1, Some 0)), TrimDone 0, Finish 0,
        Continue 0 0, Call (RGet ''x'')] init"




text \<open>A fixture whose \<open>n\<close>-th logged callback invocation throws synchronously.\<close>

definition throwing :: "nat \<Rightarrow> string env \<Rightarrow> string env" where
  "throwing n env = env\<lparr>throws := (\<lambda>i. if i = n then Some 7 else None)\<rparr>"

text \<open>
  Size 1 and expiry of 5 ms, entries with a destroy callback: \<open>get("a")\<close> at time 0,
  awaited, then \<open>get("b")\<close> at time 10. The trim pass that follows the creation of "b"
  lists "a" twice and calls its destroy callback twice.
\<close>

definition double_destroy_before :: "(string, nat) state option" where
  "double_destroy_before =
     run (fixture (Some 1) (Some 5))
       [Call (RGet ''a''), FactoryDone 0 (Inr (1, Some 0)), TrimDone 0, Finish 0, Continue 0 0,
        Call (RGet ''b''), FactoryDone 1 (Inr (2, Some 1))] init"

text \<open>The first of the two destroy calls rejects.\<close>

definition double_destroy_failed :: "(string, nat) state option" where
  "double_destroy_failed =
     run (fixture (Some 1) (Some 5))
       [Call (RGet ''a''), FactoryDone 0 (Inr (1, Some 0)), TrimDone 0, Finish 0, Continue 0 0,
        Call (RGet ''b''), FactoryDone 1 (Inr (2, Some 1)), DestroyDone 0 False] init"

text \<open>The second one resolves, the trim pass ends and \<open>get("b")\<close> settles.\<close>

definition double_destroy_run :: "(string, nat) state option" where
  "double_destroy_run =
     run (fixture (Some 1) (Some 5))
       [Call (RGet ''a''), FactoryDone 0 (Inr (1, Some 0)), TrimDone 0, Finish 0, Continue 0 0,
        Call (RGet ''b''), FactoryDone 1 (Inr (2, Some 1)), DestroyDone 0 False,
        DestroyDone 1 True, TrimDone 1, Finish 1, Continue 1 0] init"

text \<open>
  Expiry of 5 ms: \<open>getWith("x", t)\<close> at time 0 holds its lock; the next clock reading
  is 10.
\<close>

definition locked_expired :: "(string, nat) state option" where
  "locked_expired =
     run (fixture None (Some 5))
       [Call (RGetWith ''x''), FactoryDone 0 (Inr (1, Some 0)), TrimDone 0, Finish 0,
        Continue 0 0] init"

text \<open>
  The run of the two \<open>get("k")\<close> above up to the moment the second one, which read
  the clock at 20, has waited, found no entry and invoked the factory again; the clock
  has been read at 30 since.
\<close>

definition retry_before :: "(string, nat) state option" where
  "retry_before =
     run (fixture (Some 1) None)
       [Call (RGet ''j''), FactoryDone 0 (Inr (0, None)), Finish 0, Continue 0 0,
        Call (RGet ''k''), Call (RGet ''k''), Call (RGet ''j''), Continue 3 0,
        FactoryDone 1 (Inr (1, None)), TrimDone 1, Finish 1, Continue 1 0,
        Poll 2, Resume 2] init"


text \<open>The same run just before the second \<open>get("k")\<close> resumes after its wait.\<close>

definition retry_resuming :: "(string, nat) state option" where
  "retry_resuming =
     run (fixture (Some 1) None)
       [Call (RGet ''j''), FactoryDone 0 (Inr (0, None)), Finish 0, Continue 0 0,
        Call (RGet ''k''), Call (RGet ''k''), Call (RGet ''j''), Continue 3 0,
        FactoryDone 1 (Inr (1, None)), TrimDone 1, Finish 1, Continue 1 0,
        Poll 2] init"

text \<open>
  No bound: two \<open>get("k")\<close> at times 0 and 10; the first one creates the entry, the
  second one has waited and resumes next.
\<close>

definition wait_resuming :: "(string, nat) state option" where
  "wait_resuming =
     run (fixture None None)
       [Call (RGet ''k''), Call (RGet ''k''), FactoryDone 0 (Inr (1, None)), Finish 0,
        Poll 1] init"
subsection \<open>Predicates used in the statements\<close>

text \<open>
  What the synchronous part of a trim pass may do to a state: it deletes properties
  from the store, calls destroy callbacks and starts removals, and nothing else of the
  state the callers see. Every pair it takes out of the store is unlocked, and so is
  every entry whose destroy callback it calls.
\<close>

definition trimmed :: "('k, 'v) state \<Rightarrow> ('k, 'v) state \<Rightarrow> bool" where
  "trimmed s s' \<longleftrightarrow>
     heap s' = heap s \<and> fetches s' = fetches s \<and> calls s' = calls s
     \<and> initializing s' = initializing s \<and> ticks s' = ticks s
     \<and> (\<exists>P. store s' = filter P (store s))
     \<and> (\<forall>p \<in> set (store s). 0 < locked (heap s ! snd p) \<longrightarrow> p \<in> set (store s'))
     \<and> (\<exists>ls. log s' = log s @ ls
            \<and> (\<forall>ob \<in> set ls. \<exists>p \<in> set (store s).
                   ob = DestroyCall (snd p) \<and> locked (heap s ! snd p) \<le> 0))
     \<and> (\<exists>rs. removals s' = removals s @ rs)"

text \<open>
  Well-formed stores: every hash is one property, no object is stored under two hashes,
  and every address is allocated.
\<close>

definition wf :: "('k, 'v) state \<Rightarrow> bool" where
  "wf s \<longleftrightarrow>
     distinct (map fst (store s)) \<and> distinct (map snd (store s))
     \<and> (\<forall>p \<in> set (store s). snd p < length (heap s))"

text \<open>
  What an event that runs no trim pass may do: the store keeps its properties, no
  object is allocated, and no destroy callback is called.
\<close>

definition steady :: "('k, 'v) state \<Rightarrow> ('k, 'v) state \<Rightarrow> bool" where
  "steady s s' \<longleftrightarrow>
     store s' = store s \<and> length (heap s') = length (heap s)
     \<and> (\<exists>ls. log s' = log s @ ls \<and> (\<forall>ob \<in> set ls. \<forall>a. ob \<noteq> DestroyCall a))"

text \<open>The keys an event passes to \<open>getCachedValue\<close>, in the order of the calls.\<close>

fun keys_of :: "('k, 'v) event \<Rightarrow> 'k list" where
  "keys_of (Call (RGet k)) = [k]"
| "keys_of (Call (RGetWith k)) = [k]"
| "keys_of (Call (RGetMultiple ks)) = ks"
| "keys_of (Call (RGetMultipleWith ks)) = ks"
| "keys_of ev = []"

text \<open>
  An event that issues no call reads no clock and leaves every run of
  \<open>getCachedValue\<close> with its key, its hash and the \<open>now\<close> it captured.
\<close>

definition kept :: "('k, 'v) state \<Rightarrow> ('k, 'v) state \<Rightarrow> bool" where
  "kept s s' \<longleftrightarrow>
     ticks s' = ticks s \<and> length (fetches s') = length (fetches s)
     \<and> (\<forall>i < length (fetches s).
           fnow (fetches s' ! i) = fnow (fetches s ! i)
           \<and> fkey (fetches s' ! i) = fkey (fetches s ! i)
           \<and> fhash (fetches s' ! i) = fhash (fetches s ! i))"

section \<open>Evaluation and frame lemmas\<close>

lemmas engine = step_def call_def getCachedValue_def getOrInsertCachedValue_def addToStore_def
  invoke_def refresh_def afterWait_def factoryDone_def published_def shrinkCache_def trim_def
  remove_candidate_def oldestValues_def expiredValues_def isExpired_def double_add_def
  double_round_def poll_def resume_def
  trimDone_def finish_def destroyDone_def continue_call_def allDone_def transformerDone_def
  cleanupDone_def settled_def set_phase_def set_call_def relock_def unlock_all_def
  lock_child_def first_error_def trim_settled_def currentSize_def store_put_def
  store_delete_def init_def is_array_index_def is_digit_def fixture_def throwing_def Let_def

subsection \<open>What a trim pass changes\<close>

lemma trimmed_refl: "trimmed s s"
  unfolding trimmed_def
  by (auto intro: exI[of _ "\<lambda>x. True"])

lemma trimmed_trans:
  assumes "trimmed s s1" "trimmed s1 s2"
  shows "trimmed s s2"
proof -
  from assms(1) obtain P ls rs where A:
    "heap s1 = heap s" "fetches s1 = fetches s" "calls s1 = calls s"
    "initializing s1 = initializing s" "ticks s1 = ticks s"
    "store s1 = filter P (store s)"
    "\<forall>p \<in> set (store s). 0 < locked (heap s ! snd p) \<longrightarrow> p \<in> set (store s1)"
    "log s1 = log s @ ls"
    "\<forall>ob \<in> set ls. \<exists>p \<in> set (store s). ob = DestroyCall (snd p) \<and> locked (heap s ! snd p) \<le> 0"
    "removals s1 = removals s @ rs"
    unfolding trimmed_def by blast
  from assms(2) obtain P' ls' rs' where B:
    "heap s2 = heap s1" "fetches s2 = fetches s1" "calls s2 = calls s1"
    "initializing s2 = initializing s1" "ticks s2 = ticks s1"
    "store s2 = filter P' (store s1)"
    "\<forall>p \<in> set (store s1). 0 < locked (heap s1 ! snd p) \<longrightarrow> p \<in> set (store s2)"
    "log s2 = log s1 @ ls'"
    "\<forall>ob \<in> set ls'. \<exists>p \<in> set (store s1). ob = DestroyCall (snd p) \<and> locked (heap s1 ! snd p) \<le> 0"
    "removals s2 = removals s1 @ rs'"
    unfolding trimmed_def by blast
  have a: "store s2 = filter (\<lambda>x. P x \<and> P' x) (store s)"
    using A(6) B(6) by (simp add: conj_commute)
  have b: "\<forall>p \<in> set (store s). 0 < locked (heap s ! snd p) \<longrightarrow> p \<in> set (store s2)"
    using A(1) A(7) B(7) by auto
  have c: "log s2 = log s @ (ls @ ls')" using A(8) B(8) by simp
  have d: "\<forall>ob \<in> set (ls @ ls'). \<exists>p \<in> set (store s).
              ob = DestroyCall (snd p) \<and> locked (heap s ! snd p) \<le> 0"
  proof
    fix ob assume "ob \<in> set (ls @ ls')"
    then consider "ob \<in> set ls" | "ob \<in> set ls'" by auto
    then show "\<exists>p \<in> set (store s). ob = DestroyCall (snd p) \<and> locked (heap s ! snd p) \<le> 0"
    proof cases
      case 1
      then show ?thesis using A(9) by blast
    next
      case 2
      then obtain p where p: "p \<in> set (store s1)" "ob = DestroyCall (snd p)"
        "locked (heap s1 ! snd p) \<le> 0" using B(9) by blast
      have "p \<in> set (store s)" using p(1) A(6) by simp
      then show ?thesis using p A(1) by auto
    qed
  qed
  have e: "removals s2 = removals s @ (rs @ rs')" using A(10) B(10) by simp
  have f: "\<exists>Q. store s2 = filter Q (store s)" using a by blast
  have g: "\<exists>l. log s2 = log s @ l
             \<and> (\<forall>ob \<in> set l. \<exists>p \<in> set (store s).
                    ob = DestroyCall (snd p) \<and> locked (heap s ! snd p) \<le> 0)"
    using c d by blast
  have h: "\<exists>r. removals s2 = removals s @ r" using e by blast
  show ?thesis
    unfolding trimmed_def using A(1-5) B(1-5) b f g h by simp
qed

lemma filter_key_distinct:
  assumes "distinct (map fst st)" "map_of st h = Some a" "p \<in> set st" "fst p = h"
  shows "p = (h, a)"
  using assms by (metis map_of_is_SomeI prod.collapse option.inject)

lemma remove_candidate_trimmed:
  assumes "distinct (map fst (store s))"
  shows "trimmed s (snd (remove_candidate env t h (rej, s)))"
proof (cases "map_of (store s) h")
  case None
  then show ?thesis by (simp add: remove_candidate_def trimmed_refl)
next
  case (Some a)
  have mem: "(h, a) \<in> set (store s)" using Some by (rule map_of_SomeD)
  show ?thesis
  proof (cases "0 < locked (heap s ! a)")
    case True
    then show ?thesis using Some by (simp add: remove_candidate_def trimmed_refl)
  next
    case False
    show ?thesis
    proof (cases "destroy (heap s ! a)")
      case None
      have "\<forall>p \<in> set (store s). 0 < locked (heap s ! snd p) \<longrightarrow> fst p \<noteq> h"
        using filter_key_distinct[OF assms Some] False by fastforce
      then show ?thesis using Some False None
        by (auto simp: remove_candidate_def trimmed_def store_delete_def case_prod_beta)
    next
      case (Some d)
      then show ?thesis using \<open>map_of (store s) h = Some a\<close> False mem
        by (cases "throws env (length (log s))")
           (auto simp: remove_candidate_def trimmed_def invoke_def
                 intro: exI[of _ "\<lambda>x. True"] bexI[of _ "(h, a)"])
    qed
  qed
qed

lemma trimmed_distinct:
  "trimmed s s' \<Longrightarrow> distinct (map fst (store s)) \<Longrightarrow> distinct (map fst (store s'))"
  unfolding trimmed_def by (auto simp: distinct_map_filter)

lemma fold_remove_trimmed:
  assumes "distinct (map fst (store s))"
  shows "trimmed s (snd (fold (remove_candidate env t) hs (rej, s)))"
  using assms
proof (induction hs arbitrary: rej s)
  case Nil
  then show ?case by (simp add: trimmed_refl)
next
  case (Cons h hs)
  obtain rej1 s1 where r: "remove_candidate env t h (rej, s) = (rej1, s1)"
    by (cases "remove_candidate env t h (rej, s)")
  have t1: "trimmed s s1" using remove_candidate_trimmed[OF Cons.prems, of env t h rej] r by simp
  have "trimmed s1 (snd (fold (remove_candidate env t) hs (rej1, s1)))"
    using Cons.IH trimmed_distinct[OF t1 Cons.prems] by blast
  with t1 show ?case using r by (simp add: trimmed_trans)
qed

lemma trimmed_cong:
  assumes "trimmed s1 s'" "heap s1 = heap s" "fetches s1 = fetches s" "calls s1 = calls s"
    "initializing s1 = initializing s" "ticks s1 = ticks s" "store s1 = store s"
    "log s1 = log s" "removals s1 = removals s"
  shows "trimmed s s'"
  using assms unfolding trimmed_def by simp

lemma trim_trimmed:
  assumes "distinct (map fst (store s))"
  shows "trimmed s (snd (trim env now s))"
proof -
  let ?s1 = "s\<lparr>trims := trims s + 1\<rparr>"
  have "trimmed ?s1 (snd (trim env now s))"
    unfolding trim_def using assms by (intro fold_remove_trimmed) simp
  then show ?thesis by (rule trimmed_cong) simp_all
qed

lemma shrinkCache_trimmed:
  assumes "distinct (map fst (store s))"
  shows "trimmed s (snd (shrinkCache env now s))"
proof -
  let ?s1 = "s\<lparr>shrinkLock := True\<rparr>"
  have "trimmed ?s1 (snd (trim env now ?s1))" using assms by (intro trim_trimmed) simp
  then have "trimmed s (snd (trim env now ?s1))" by (rule trimmed_cong) simp_all
  then show ?thesis
    by (auto simp: shrinkCache_def trimmed_refl split: prod.splits)
qed

subsection \<open>The store as a list of properties\<close>

lemma shrinkCache_trimmedD:
  assumes "distinct (map fst (store s))" "shrinkCache env now s = (r, s')"
  shows "trimmed s s'"
  using shrinkCache_trimmed[OF assms(1), of env now] assms(2) by (simp only: snd_conv)

lemma insert_index_set: "set (insert_index h a st) = insert (h, a) (set st)"
  by (induction st) (auto split: if_splits)

lemma insert_index_fst:
  "h \<notin> fst ` set st \<Longrightarrow> distinct (map fst st) \<Longrightarrow> distinct (map fst (insert_index h a st))"
  by (induction st) (auto simp: insert_index_set)

lemma insert_index_snd:
  "a \<notin> snd ` set st \<Longrightarrow> distinct (map snd st) \<Longrightarrow> distinct (map snd (insert_index h a st))"
  by (induction st) (auto simp: insert_index_set)

lemma overwrite_fst:
  "map fst (map (\<lambda>(k, b). (k, if k = h then a else b)) st) = map fst st"
  by (induction st) auto

lemma overwrite_set:
  assumes "h \<in> fst ` set st"
  shows "set (map (\<lambda>(k, b). (k, if k = h then a else b)) st)
     = insert (h, a) {p \<in> set st. fst p \<noteq> h}"
proof -
  let ?f = "\<lambda>p. (fst p, if fst p = h then a else snd p)"
  have img: "set (map (\<lambda>(k, b). (k, if k = h then a else b)) st) = ?f ` set st"
    by (simp add: case_prod_beta)
  have "?f ` set st = insert (h, a) {p \<in> set st. fst p \<noteq> h}"
  proof (rule set_eqI, rule iffI)
    fix q assume "q \<in> ?f ` set st"
    then obtain p where p: "p \<in> set st" "q = ?f p" by blast
    show "q \<in> insert (h, a) {p \<in> set st. fst p \<noteq> h}"
      using p by (cases "fst p = h") auto
  next
    fix q assume "q \<in> insert (h, a) {p \<in> set st. fst p \<noteq> h}"
    then consider "q = (h, a)" | "q \<in> set st" "fst q \<noteq> h" by auto
    then show "q \<in> ?f ` set st"
    proof cases
      case 1
      obtain p where p: "p \<in> set st" "fst p = h" using assms by auto
      then have "q = ?f p" using 1 by simp
      then show ?thesis using p(1) by (rule image_eqI)
    next
      case 2
      then have "q = ?f q" by simp
      then show ?thesis using 2(1) by (rule image_eqI)
    qed
  qed
  with img show ?thesis by simp
qed

lemma overwrite_same:
  "h \<notin> fst ` set st \<Longrightarrow> map (\<lambda>(k, b). (k, if k = h then a else b)) st = st"
  by (induction st) auto

lemma overwrite_snd:
  "a \<notin> snd ` set st \<Longrightarrow> distinct (map fst st) \<Longrightarrow> distinct (map snd st) \<Longrightarrow>
   distinct (map snd (map (\<lambda>(k, b). (k, if k = h then a else b)) st))"
proof (induction st)
  case Nil
  then show ?case by simp
next
  case (Cons p st)
  obtain k b where p: "p = (k, b)" by (cases p)
  show ?case
  proof (cases "k = h")
    case True
    then have "h \<notin> fst ` set st" using Cons.prems(2) p by auto
    then have same: "map (\<lambda>(k, b). (k, if k = h then a else b)) st = st"
      by (rule overwrite_same)
    show ?thesis using Cons.prems True p same by auto
  next
    case False
    have "b \<notin> snd ` set (map (\<lambda>(k, b). (k, if k = h then a else b)) st)"
      using Cons.prems p by (auto split: if_splits)
    then show ?thesis using Cons False p by auto
  qed
qed

lemma store_put_cases:
  obtains "h \<in> fst ` set st" "store_put h a st = map (\<lambda>(k, b). (k, if k = h then a else b)) st"
  | "h \<notin> fst ` set st" "store_put h a st = insert_index h a st"
  | "h \<notin> fst ` set st" "store_put h a st = st @ [(h, a)]"
  by (cases "h \<in> fst ` set st"; cases "is_array_index h"; simp add: store_put_def)

lemma store_put_set:
  assumes "distinct (map fst st)"
  shows "set (store_put h a st) = insert (h, a) {p \<in> set st. fst p \<noteq> h}"
proof (cases h a st rule: store_put_cases)
  case 1
  then show ?thesis by (simp only: overwrite_set)
next
  case 2
  then show ?thesis by (auto simp: insert_index_set image_iff)
next
  case 3
  then show ?thesis by (auto simp: image_iff)
qed

lemma store_put_fst:
  assumes "distinct (map fst st)"
  shows "distinct (map fst (store_put h a st))"
proof (cases h a st rule: store_put_cases)
  case 1
  then show ?thesis using assms by (simp only: overwrite_fst)
next
  case 2
  then show ?thesis using assms by (simp add: insert_index_fst)
next
  case 3
  then show ?thesis using assms by simp
qed

lemma store_put_snd:
  assumes "a \<notin> snd ` set st" "distinct (map fst st)" "distinct (map snd st)"
  shows "distinct (map snd (store_put h a st))"
proof (cases h a st rule: store_put_cases)
  case 1
  then show ?thesis using overwrite_snd[OF assms, of h] by (simp only:)
next
  case 2
  then show ?thesis using assms by (simp add: insert_index_snd)
next
  case 3
  then show ?thesis using assms by simp
qed

lemma wf_publish:
  assumes "wf s"
  shows "wf (s\<lparr>heap := heap s @ [cv], store := store_put h (length (heap s)) (store s)\<rparr>)"
proof -
  have fresh: "length (heap s) \<notin> snd ` set (store s)" using assms by (auto simp: wf_def)
  show ?thesis
    using assms fresh
    by (auto simp: wf_def store_put_fst store_put_snd store_put_set less_Suc_eq)
qed

lemma wf_trimmed: "wf s \<Longrightarrow> trimmed s s' \<Longrightarrow> wf s'"
  unfolding wf_def trimmed_def by (auto simp: distinct_map_filter)

lemma wf_cong:
  "wf s \<Longrightarrow> store s' = store s \<Longrightarrow> length (heap s') = length (heap s) \<Longrightarrow> wf s'"
  by (simp add: wf_def)

subsection \<open>Events that run no trim pass\<close>

lemma steady_refl: "steady s s"
  by (simp add: steady_def)

lemma steady_trans: "steady s s1 \<Longrightarrow> steady s1 s2 \<Longrightarrow> steady s s2"
  unfolding steady_def by fastforce

lemma steady_log: "steady s (s\<lparr>log := log s @ [ob]\<rparr>) = (\<forall>a. ob \<noteq> DestroyCall a)"
  by (auto simp: steady_def)

lemma addToStore_steady: "steady s (snd (addToStore env key h s))"
  by (auto simp: addToStore_def invoke_def steady_def split: option.splits)

lemma refresh_steady: "steady s (snd (refresh a now s))"
  by (simp add: refresh_def steady_def)

lemma getOrInsert_steady: "steady s (snd (getOrInsertCachedValue env key h now s))"
  by (auto simp: getOrInsertCachedValue_def addToStore_steady refresh_steady steady_refl
      split: option.splits)

lemma afterWait_steady: "steady s (snd (afterWait env key h now s))"
  by (auto simp: afterWait_def getOrInsert_steady refresh_steady split: option.splits)

lemma steady_cong:
  "steady s1 s2 \<Longrightarrow> store s1 = store s \<Longrightarrow> length (heap s1) = length (heap s) \<Longrightarrow>
   log s1 = log s \<Longrightarrow> store s' = store s2 \<Longrightarrow> length (heap s') = length (heap s2) \<Longrightarrow>
   log s' = log s2 \<Longrightarrow> steady s s'"
  by (simp add: steady_def)

lemma getCachedValue_steady: "steady s (snd (getCachedValue env key s))"
proof -
  let ?s0 = "s\<lparr>ticks := ticks s + 1\<rparr>"
  let ?r = "getOrInsertCachedValue env key (hasher env key) (clock env (ticks s)) ?s0"
  have "steady ?s0 (snd ?r)" by (rule getOrInsert_steady)
  then show ?thesis
    by (rule steady_cong) (simp_all add: getCachedValue_def Let_def split: prod.splits)
qed

lemma fetch_all_steady:
  "steady s (snd (fetch_all env ks s :: ('k \<times> 'x child) list \<times> ('k, 'v) state))"
proof (induction ks arbitrary: s)
  case Nil
  then show ?case by (simp add: steady_refl)
next
  case (Cons k ks)
  obtain fid s1 where g: "getCachedValue env k s = (fid, s1)" by (cases "getCachedValue env k s")
  have "steady s s1" using getCachedValue_steady[of s env k] g by simp
  moreover have "steady s1 (snd (fetch_all env ks s1 :: ('k \<times> 'x child) list \<times> ('k, 'v) state))"
    by (rule Cons.IH)
  ultimately show ?case using g by (auto simp: split: prod.splits intro: steady_trans)
qed

lemma relock_steady: "steady s (relock a d s)"
  by (simp add: relock_def steady_def)

lemma unlock_all_steady: "steady s (unlock_all kas s)"
  unfolding unlock_all_def
proof (induction kas arbitrary: s)
  case Nil
  then show ?case by (simp add: steady_refl)
next
  case (Cons ka kas)
  have "steady s (relock (snd ka) (- 1) s)" by (rule relock_steady)
  then show ?case using Cons.IH[of "relock (snd ka) (- 1) s"] by (auto intro: steady_trans)
qed

lemma steady_fields:
  "steady s s1 \<Longrightarrow> store s' = store s1 \<Longrightarrow> length (heap s') = length (heap s1) \<Longrightarrow>
   log s' = log s1 \<Longrightarrow> steady s s'"
  by (simp add: steady_def)

lemma set_phase_steady: "steady s s1 \<Longrightarrow> steady s (set_phase fid ph s1)"
  by (erule steady_fields) (simp_all add: set_phase_def)

lemma set_call_steady: "steady s s1 \<Longrightarrow> steady s (set_call cid cp s1)"
  by (erule steady_fields) (simp_all add: set_call_def)

lemma invoke_steady:
  "\<forall>a. ob \<noteq> DestroyCall a \<Longrightarrow> steady s s0 \<Longrightarrow> invoke env ob s0 = (x, s1) \<Longrightarrow> steady s s1"
  by (auto simp: invoke_def steady_def)

lemma call_steady:
  assumes "call env rq s = Some s'" "rq \<noteq> RCleanup"
  shows "steady s s'"
proof (cases rq)
  case (RGet k)
  obtain fid s1 where g: "getCachedValue env k s = (fid, s1)" by (cases "getCachedValue env k s")
  have "steady s s1" using getCachedValue_steady[of s env k] g by simp
  then show ?thesis using assms RGet g by (auto simp: call_def elim: steady_fields)
next
  case (RGetWith k)
  obtain fid s1 where g: "getCachedValue env k s = (fid, s1)" by (cases "getCachedValue env k s")
  have "steady s s1" using getCachedValue_steady[of s env k] g by simp
  then show ?thesis using assms RGetWith g by (auto simp: call_def elim: steady_fields)
next
  case (RGetMultiple ks)
  obtain cs s1 where g: "(fetch_all env ks s :: (_ \<times> 'b child) list \<times> _) = (cs, s1)"
    by (cases "fetch_all env ks s :: (_ \<times> 'b child) list \<times> _")
  have "steady s s1" using fetch_all_steady[of s env ks, where ?'x = 'b] g by simp
  then show ?thesis using assms RGetMultiple g by (auto simp: call_def elim: steady_fields)
next
  case (RGetMultipleWith ks)
  obtain cs s1 where g: "(fetch_all env ks s :: (_ \<times> addr child) list \<times> _) = (cs, s1)"
    by (cases "fetch_all env ks s :: (_ \<times> addr child) list \<times> _")
  have "steady s s1" using fetch_all_steady[of s env ks, where ?'x = addr] g by simp
  then show ?thesis using assms RGetMultipleWith g by (auto simp: call_def elim: steady_fields)
next
  case RCleanup
  then show ?thesis using assms by simp
qed

lemma poll_steady: "poll fid s = Some s' \<Longrightarrow> steady s s'"
  by (auto simp: poll_def steady_refl set_phase_steady split: if_splits)

lemma resume_steady: "resume env fid s = Some s' \<Longrightarrow> steady s s'"
  using afterWait_steady[of s env]
  by (auto simp: resume_def Let_def set_phase_steady split: if_splits prod.splits)
     (metis set_phase_steady snd_conv)

lemma trimDone_steady: "trimDone fid s = Some s' \<Longrightarrow> steady s s'"
  by (auto simp: trimDone_def set_phase_def steady_def split: if_splits phase.splits)

lemma finish_steady: "finish fid s = Some s' \<Longrightarrow> steady s s'"
  by (auto simp: finish_def set_phase_def steady_def split: if_splits phase.splits)

lemma factoryDone_Inl_steady: "factoryDone env fid (Inl e) s = Some s' \<Longrightarrow> steady s s'"
  by (auto simp: factoryDone_def set_phase_def steady_def Let_def split: if_splits)

lemma lock_child_steady: "lock_child i cs s = Some (cs1, new, s1) \<Longrightarrow> steady s s1"
  by (auto simp: lock_child_def steady_refl relock_steady
      split: if_splits child.splits option.splits sum.splits)

lemma continue_steady:
  assumes "continue_call env cid i s = Some s'"
  shows "steady s s'"
proof (cases "snd (calls s ! cid)")
  case (GetWith fid)
  show ?thesis
  proof (cases "settled s fid")
    case None
    then show ?thesis using assms GetWith by (simp add: continue_call_def split: if_splits)
  next
    case (Some r)
    show ?thesis
    proof (cases r)
      case (Inl e)
      then show ?thesis using assms GetWith Some
        by (auto simp: continue_call_def set_call_steady steady_refl split: if_splits)
    next
      case (Inr a)
      obtain x s1 where iv: "invoke env (TransformerCall cid (cvalue (heap s ! a))) (relock a 1 s)
          = (x, s1)" by (cases "invoke env (TransformerCall cid (cvalue (heap s ! a))) (relock a 1 s)")
      have s1: "steady s s1" using invoke_steady[OF _ relock_steady iv] by simp
      have "steady s (relock a (- 1) s1)" using s1 relock_steady steady_trans by blast
      then show ?thesis using assms GetWith Some Inr iv s1
        by (auto simp: continue_call_def set_call_steady split: if_splits option.splits)
    qed
  qed
qed (use assms in \<open>auto simp: continue_call_def set_call_steady steady_refl
       dest: lock_child_steady
       split: if_splits option.splits sum.splits child.splits\<close>)

lemma allDone_steady:
  assumes "allDone env cid s = Some s'"
  shows "steady s s'"
proof (cases "snd (calls s ! cid)")
  case (GetMultipleWith cs err)
  show ?thesis
  proof (cases "err = None \<and> collect cs \<noteq> None")
    case False
    then show ?thesis using assms GetMultipleWith
      by (auto simp: allDone_def set_call_steady steady_refl split: if_splits option.splits)
  next
    case True
    then obtain kas where k: "collect cs = Some kas" by auto
    let ?ob = "MultiTransformerCall cid (map (\<lambda>ka. (fst ka, cvalue (heap s ! snd ka))) kas)"
    obtain x s1 where iv: "invoke env ?ob s = (x, s1)" by (cases "invoke env ?ob s")
    have s1: "steady s s1" using invoke_steady[OF _ steady_refl iv] by simp
    have "steady s (unlock_all kas s1)" using s1 unlock_all_steady steady_trans by blast
    then show ?thesis using assms GetMultipleWith True k iv s1
      by (auto simp: allDone_def set_call_steady split: if_splits option.splits)
  qed
qed (use assms in \<open>auto simp: allDone_def set_call_steady steady_refl
       split: if_splits option.splits\<close>)

lemma transformerDone_steady: "transformerDone cid res s = Some s' \<Longrightarrow> steady s s'"
  by (auto simp: transformerDone_def set_call_steady relock_steady unlock_all_steady
      split: if_splits cphase.splits)

lemma cleanupDone_steady: "cleanupDone cid s = Some s' \<Longrightarrow> steady s s'"
  by (auto simp: cleanupDone_def set_call_def steady_def
      split: if_splits cphase.splits option.splits)

lemma step_steady:
  assumes "step env ev s = Some s'"
    and "ev \<noteq> Call RCleanup" and "\<forall>fid r. ev \<noteq> FactoryDone fid (Inr r)"
    and "\<forall>j ok. ev \<noteq> DestroyDone j ok"
  shows "steady s s'"
proof (cases ev)
  case (Call rq)
  then show ?thesis using assms by (auto simp: step_def intro: call_steady)
next
  case (FactoryDone fid res)
  then show ?thesis using assms by (cases res) (auto simp: step_def intro: factoryDone_Inl_steady)
qed (use assms in \<open>auto simp: step_def intro: poll_steady resume_steady trimDone_steady
       finish_steady continue_steady allDone_steady transformerDone_steady cleanupDone_steady\<close>)

lemma wf_steady: "wf s \<Longrightarrow> steady s s' \<Longrightarrow> wf s'"
  by (simp add: wf_def steady_def)

lemma wf_fields:
  "wf s1 \<Longrightarrow> store s' = store s1 \<Longrightarrow> length (heap s') = length (heap s1) \<Longrightarrow> wf s'"
  by (simp add: wf_def)

lemma cleanup_cases:
  assumes "call env RCleanup s = Some s'"
  obtains r s1 where
    "shrinkCache env (clock env (ticks s)) (s\<lparr>ticks := ticks s + 1\<rparr>) = (r, s1)"
    "s' = s1\<lparr>calls := calls s1 @ [(RCleanup, CleanupShrinking r)]\<rparr>"
  using assms by (auto simp: call_def split: if_splits prod.splits)

lemma factoryDone_Inr_cases:
  assumes "factoryDone env fid (Inr (v, d)) s = Some s'"
  obtains r s1 where
    "fid < length (fetches s)" "fphase (fetches s ! fid) = Creating"
    "shrinkCache env (fnow (fetches s ! fid)) (published (fetches s ! fid) v d s) = (r, s1)"
    "s' = set_phase fid
            (case r of None \<Rightarrow> Finishing (length (heap s)) None
                     | Some (t, rej) \<Rightarrow> Shrinking (length (heap s)) t rej) s1"
  using assms
  by (auto simp: factoryDone_def Let_def split: if_splits prod.splits option.splits)

lemma wf_published: "wf s \<Longrightarrow> wf (published f v d s)"
  unfolding published_def by (rule wf_publish)

lemma destroyDone_store:
  assumes "destroyDone j ok s = Some s'"
  shows "heap s' = heap s" "log s' = log s" "\<exists>P. store s' = filter P (store s)"
  using assms
  by (auto simp: destroyDone_def store_delete_def split: if_splits
      intro: exI[of _ "\<lambda>x. True"])

lemma map_of_store_delete: "h \<noteq> h' \<Longrightarrow> map_of (store_delete h' st) h = map_of st h"
  by (induction st) (auto simp: store_delete_def)


lemma step_wf:
  assumes "wf s" "step env ev s = Some s'"
  shows "wf s'"
proof -
  consider (cleanup) "ev = Call RCleanup" | (created) fid v d where "ev = FactoryDone fid (Inr (v, d))"
    | (destroyed) j ok where "ev = DestroyDone j ok"
    | (other) "ev \<noteq> Call RCleanup" "\<forall>fid r. ev \<noteq> FactoryDone fid (Inr r)"
        "\<forall>j ok. ev \<noteq> DestroyDone j ok"
    by (cases ev) auto
  then show ?thesis
  proof cases
    case cleanup
    then have "call env RCleanup s = Some s'" using assms(2) by (simp add: step_def)
    then obtain r s1 where c:
      "shrinkCache env (clock env (ticks s)) (s\<lparr>ticks := ticks s + 1\<rparr>) = (r, s1)"
      "s' = s1\<lparr>calls := calls s1 @ [(RCleanup, CleanupShrinking r)]\<rparr>"
      by (rule cleanup_cases)
    have w0: "wf (s\<lparr>ticks := ticks s + 1\<rparr>)" using assms(1) by (simp add: wf_def)
    then have "trimmed (s\<lparr>ticks := ticks s + 1\<rparr>) s1"
      using shrinkCache_trimmedD[OF _ c(1)] by (simp add: wf_def)
    then have "wf s1" using w0 wf_trimmed by blast
    then show ?thesis using c(2) by (simp add: wf_def)
  next
    case created
    then have "factoryDone env fid (Inr (v, d)) s = Some s'" using assms(2) by (simp add: step_def)
    then obtain r s1 where c:
      "shrinkCache env (fnow (fetches s ! fid)) (published (fetches s ! fid) v d s) = (r, s1)"
      "s' = set_phase fid
            (case r of None \<Rightarrow> Finishing (length (heap s)) None
                     | Some (t, rej) \<Rightarrow> Shrinking (length (heap s)) t rej) s1"
      by (rule factoryDone_Inr_cases)
    have w0: "wf (published (fetches s ! fid) v d s)" using assms(1) by (rule wf_published)
    then have "trimmed (published (fetches s ! fid) v d s) s1"
      using shrinkCache_trimmedD[OF _ c(1)] by (simp add: wf_def)
    then have "wf s1" using w0 wf_trimmed by blast
    then show ?thesis using c(2) by (simp add: wf_def set_phase_def)
  next
    case destroyed
    then have "destroyDone j ok s = Some s'" using assms(2) by (simp add: step_def)
    from destroyDone_store[OF this] show ?thesis
      using assms(1) by (auto simp: wf_def distinct_map_filter)
  next
    case other
    then show ?thesis using assms step_steady wf_steady by blast
  qed
qed

lemma run_wf: "wf s \<Longrightarrow> run env evs s = Some s' \<Longrightarrow> wf s'"
proof (induction evs arbitrary: s)
  case Nil
  then show ?case by simp
next
  case (Cons ev evs)
  then show ?case by (auto split: option.splits dest: step_wf)
qed

lemma init_wf: "wf init"
  by (simp add: wf_def init_def)

lemma reachable_wf: "run env evs init = Some s \<Longrightarrow> wf s"
  using run_wf[OF init_wf] .






lemma published_store:
  "distinct (map fst (store s)) \<Longrightarrow>
   set (store (published f v d s))
     = insert (fhash f, length (heap s)) {p \<in> set (store s). fst p \<noteq> fhash f}"
  by (simp add: published_def store_put_set)

subsection \<open>Re-creation of an expired entry\<close>

lemma getCachedValue_expired:
  assumes "map_of (store s) (hasher env k) = Some a" "hasher env k \<notin> initializing s"
    "isExpired (options env) (heap s ! a) (clock env (ticks s))"
  shows "\<exists>s1. getCachedValue env k s = (length (fetches s), s1)
           \<and> log s1 = log s @ [FactoryCall k] \<and> store s1 = store s \<and> heap s1 = heap s"
  using assms
  by (auto simp: getCachedValue_def getOrInsertCachedValue_def addToStore_def invoke_def Let_def
      split: option.splits)

lemma map_of_filter_SomeD: "map_of (filter P xs) k = Some v \<Longrightarrow> (k, v) \<in> set xs"
  by (auto dest: map_of_SomeD)

lemma remove_candidate_heap: "heap (snd (remove_candidate env t c (rej, s))) = heap s"
  by (auto simp: remove_candidate_def invoke_def split: option.splits)

lemma remove_candidate_deleted:
  assumes "map_of (store s) h = Some n"
    and "map_of (store (snd (remove_candidate env t c (rej, s)))) h \<noteq> Some n"
  shows "c = h \<and> destroy (heap s ! n) = None"
proof (cases "c = h")
  case True
  then show ?thesis using assms
    by (auto simp: remove_candidate_def invoke_def split: option.splits if_splits)
next
  case False
  then have "map_of (store (snd (remove_candidate env t c (rej, s)))) h = map_of (store s) h"
    by (auto simp: remove_candidate_def invoke_def map_of_store_delete split: option.splits)
  then show ?thesis using assms by simp
qed

lemma fold_remove_deleted:
  assumes "distinct (map fst (store s))" "map_of (store s) h = Some n"
    and "map_of (store (snd (fold (remove_candidate env t) cs (rej, s)))) h \<noteq> Some n"
  shows "h \<in> set cs \<and> destroy (heap s ! n) = None"
  using assms
proof (induction cs arbitrary: rej s)
  case Nil
  then show ?case by simp
next
  case (Cons c cs)
  obtain rej1 s1 where r: "remove_candidate env t c (rej, s) = (rej1, s1)"
    by (cases "remove_candidate env t c (rej, s)")
  have s1: "s1 = snd (remove_candidate env t c (rej, s))" using r by simp
  have hp: "heap s1 = heap s" unfolding s1 by (rule remove_candidate_heap)
  have d1: "distinct (map fst (store s1))"
    unfolding s1 using remove_candidate_trimmed[OF Cons.prems(1)] Cons.prems(1)
    by (rule trimmed_distinct)
  have rest: "map_of (store (snd (fold (remove_candidate env t) cs (rej1, s1)))) h \<noteq> Some n"
    using Cons.prems(3) r by simp
  show ?case
  proof (cases "map_of (store s1) h = Some n")
    case True
    from Cons.IH[OF d1 True rest] show ?thesis using hp by simp
  next
    case False
    then show ?thesis
      using remove_candidate_deleted[OF Cons.prems(2), of env t c rej] s1 by simp
  qed
qed

lemma shrinkCache_deleted:
  assumes "distinct (map fst (store s))" "map_of (store s) h = Some n"
    and "shrinkCache env now s = (r, s1)" "map_of (store s1) h \<noteq> Some n"
  shows "\<not> shrinkLock s \<and> destroy (heap s ! n) = None
     \<and> h \<in> set (oldestValues (options env) (heap s) (store s)
                 @ expiredValues (options env) (heap s) (store s) now)"
proof -
  let ?s0 = "s\<lparr>shrinkLock := True, trims := trims s + 1\<rparr>"
  let ?cs = "oldestValues (options env) (heap s) (store s)
             @ expiredValues (options env) (heap s) (store s) now"
  have ran: "\<not> shrinkLock s \<and> s1 = snd (fold (remove_candidate env (trims s)) ?cs (False, ?s0))"
    using assms(2,3,4)
    by (auto simp: shrinkCache_def trim_def split: if_splits prod.splits)
  have "h \<in> set ?cs \<and> destroy (heap ?s0 ! n) = None"
    using assms(4) ran
    by (intro fold_remove_deleted[where s = ?s0 and env = env and t = "trims s" and rej = False])
       (simp_all add: assms(1,2))
  then show ?thesis using ran by simp
qed

lemma replaced_entry:
  assumes w: "wf t" and inst: "map_of (store t) h = Some a"
    and fid: "fid < length (fetches t)" "fphase (fetches t ! fid) = Creating"
      "fhash (fetches t ! fid) = h"
  shows "\<exists>t' ls. step env (FactoryDone fid (Inr (v, d))) t = Some t'
           \<and> log t' = log t @ ls \<and> DestroyCall a \<notin> set ls
           \<and> heap t' = heap t @ [\<lparr>cvalue = v, insertionTimestamp = fnow (fetches t ! fid),
                                    timestamp = fnow (fetches t ! fid), locked = 0, destroy = d\<rparr>]
           \<and> a \<notin> snd ` set (store t')
           \<and> (map_of (store t') h = Some (length (heap t))
               \<or> map_of (store t') h = None \<and> \<not> shrinkLock t \<and> d = None
                 \<and> h \<in> set (oldestValues (options env) (heap t')
                                (store_put h (length (heap t)) (store t))
                              @ expiredValues (options env) (heap t')
                                  (store_put h (length (heap t)) (store t))
                                  (fnow (fetches t ! fid))))
           \<and> (shrinkLock t \<longrightarrow> store t' = store_put h (length (heap t)) (store t))
           \<and> (\<exists>P. store t' = filter P (store_put h (length (heap t)) (store t)))"
proof -
  let ?f = "fetches t ! fid"
  let ?p = "published ?f v d t"
  obtain r s1 where c: "shrinkCache env (fnow ?f) ?p = (r, s1)"
    by (cases "shrinkCache env (fnow ?f) ?p")
  let ?t' = "set_phase fid
            (case r of None \<Rightarrow> Finishing (length (heap t)) None
                     | Some (t0, rej) \<Rightarrow> Shrinking (length (heap t)) t0 rej) s1"
  have stp: "step env (FactoryDone fid (Inr (v, d))) t = Some ?t'"
    using fid c by (auto simp: step_def factoryDone_def Let_def split: option.splits)
  have mem: "(h, a) \<in> set (store t)" using inst by (rule map_of_SomeD)
  have al: "a < length (heap t)" using w mem by (auto simp: wf_def)
  have df: "distinct (map fst (store t))" and ds: "distinct (map snd (store t))"
    using w by (simp_all add: wf_def)
  have wp: "wf ?p" using w by (rule wf_published)
  have tr: "trimmed ?p s1" using shrinkCache_trimmedD[OF _ c] wp by (simp add: wf_def)
  have sp: "set (store ?p) = insert (h, length (heap t)) {p \<in> set (store t). fst p \<noteq> h}"
    using published_store[OF df, of ?f v d] fid(3) by simp
  have only: "q = (h, a)" if "q \<in> set (store t)" "snd q = a" for q
    using ds mem that by (metis distinct_map inj_onD snd_conv)
  have gone: "a \<notin> snd ` set (store ?p)"
  proof
    assume "a \<in> snd ` set (store ?p)"
    then obtain q where q: "q \<in> set (store ?p)" "snd q = a" by auto
    then consider "q = (h, length (heap t))" | "q \<in> set (store t)" "fst q \<noteq> h"
      using sp by auto
    then show False
    proof cases
      case 1
      then show ?thesis using q(2) al by simp
    next
      case 2
      then show ?thesis using only[OF 2(1) q(2)] by simp
    qed
  qed
  from tr obtain P ls where t1: "heap s1 = heap ?p" "store s1 = filter P (store ?p)"
    "log s1 = log ?p @ ls"
    "\<forall>ob \<in> set ls. \<exists>p \<in> set (store ?p). ob = DestroyCall (snd p) \<and> locked (heap ?p ! snd p) \<le> 0"
    unfolding trimmed_def by blast
  have nd: "DestroyCall a \<notin> set ls"
  proof
    assume "DestroyCall a \<in> set ls"
    then obtain q where "q \<in> set (store ?p)" "a = snd q" using t1(4) by auto
    then show False using gone by auto
  qed
  have g1: "a \<notin> snd ` set (store s1)" using gone t1(2) by auto
  have dp: "distinct (map fst (store ?p))" using wp by (simp add: wf_def)
  have "(h, length (heap t)) \<in> set (store ?p)" using sp by simp
  then have new: "map_of (store ?p) h = Some (length (heap t))"
    using dp by (simp add: map_of_eq_Some_iff)
  have stp_store: "store ?p = store_put h (length (heap t)) (store t)"
    using fid(3) by (simp add: published_def)
  have fields: "shrinkLock ?p = shrinkLock t"
    "destroy (heap ?p ! length (heap t)) = d"
    by (simp_all add: published_def)
  have none: "map_of (store s1) h = None" if "map_of (store s1) h \<noteq> Some (length (heap t))"
  proof (cases "map_of (store s1) h")
    case None
    then show ?thesis by simp
  next
    case (Some b)
    then have "(h, b) \<in> set (store ?p)" using t1(2) by (auto dest: map_of_filter_SomeD)
    then have "b = length (heap t)" using sp by auto
    then show ?thesis using Some that by simp
  qed
  have slot: "map_of (store s1) h = Some (length (heap t))
       \<or> map_of (store s1) h = None \<and> \<not> shrinkLock t \<and> d = None
         \<and> h \<in> set (oldestValues (options env) (heap s1)
                        (store_put h (length (heap t)) (store t))
                      @ expiredValues (options env) (heap s1)
                          (store_put h (length (heap t)) (store t)) (fnow ?f))"
  proof (cases "map_of (store s1) h = Some (length (heap t))")
    case True
    then show ?thesis by simp
  next
    case False
    from shrinkCache_deleted[OF dp new c False] none[OF False]
    show ?thesis unfolding fields t1(1) stp_store by blast
  qed
  have sub: "\<exists>P. store s1 = filter P (store_put h (length (heap t)) (store t))"
    using t1(2) stp_store by auto
  have locked_pass: "store s1 = store_put h (length (heap t)) (store t)" if "shrinkLock t"
    using c that fields(1) stp_store by (simp add: shrinkCache_def)
  have hp: "heap ?t' = heap t @ [\<lparr>cvalue = v, insertionTimestamp = fnow ?f,
                                    timestamp = fnow ?f, locked = 0, destroy = d\<rparr>]"
    using t1(1) by (simp add: set_phase_def published_def)
  have lg: "log ?t' = log t @ ls" using t1(3) by (simp add: set_phase_def published_def)
  have st: "store ?t' = store s1" "heap ?t' = heap s1" by (simp_all add: set_phase_def)
  have "log ?t' = log t @ ls \<and> DestroyCall a \<notin> set ls
     \<and> heap ?t' = heap t @ [\<lparr>cvalue = v, insertionTimestamp = fnow ?f,
                                timestamp = fnow ?f, locked = 0, destroy = d\<rparr>]
     \<and> a \<notin> snd ` set (store ?t')
     \<and> (map_of (store ?t') h = Some (length (heap t))
         \<or> map_of (store ?t') h = None \<and> \<not> shrinkLock t \<and> d = None
           \<and> h \<in> set (oldestValues (options env) (heap ?t')
                          (store_put h (length (heap t)) (store t))
                        @ expiredValues (options env) (heap ?t')
                            (store_put h (length (heap t)) (store t)) (fnow ?f)))
     \<and> (shrinkLock t \<longrightarrow> store ?t' = store_put h (length (heap t)) (store t))
     \<and> (\<exists>P. store ?t' = filter P (store_put h (length (heap t)) (store t)))"
    using lg nd hp g1 slot locked_pass sub unfolding st by blast
  then show ?thesis using stp by blast
qed

subsection \<open>Clock readings and captured timestamps\<close>

lemma kept_refl: "kept s s"
  by (simp add: kept_def)

lemma kept_trans: "kept s s1 \<Longrightarrow> kept s1 s2 \<Longrightarrow> kept s s2"
  by (simp add: kept_def)

lemma kept_same: "ticks s' = ticks s \<Longrightarrow> fetches s' = fetches s \<Longrightarrow> kept s s'"
  by (simp add: kept_def)

lemma nth_set_phase:
  "i < length (fetches s) \<Longrightarrow>
   fetches (set_phase fid ph s) ! i
     = (if i = fid then (fetches s ! i)\<lparr>fphase := ph\<rparr> else fetches s ! i)"
  by (auto simp: set_phase_def nth_list_update)

lemma set_phase_same: "ticks (set_phase fid ph s) = ticks s"
  "length (fetches (set_phase fid ph s)) = length (fetches s)"
  "calls (set_phase fid ph s) = calls s" "initializing (set_phase fid ph s) = initializing s"
  "log (set_phase fid ph s) = log s" "store (set_phase fid ph s) = store s"
  "heap (set_phase fid ph s) = heap s"
  by (simp_all add: set_phase_def)

lemma set_phase_kept: "kept s (set_phase fid ph s)"
  by (simp add: kept_def nth_set_phase set_phase_same)

lemma relock_same: "ticks (relock a d s) = ticks s" "fetches (relock a d s) = fetches s"
  "calls (relock a d s) = calls s" "initializing (relock a d s) = initializing s"
  "log (relock a d s) = log s" "store (relock a d s) = store s"
  by (simp_all add: relock_def)

lemma unlock_all_same: "ticks (unlock_all kas s) = ticks s"
  "fetches (unlock_all kas s) = fetches s" "calls (unlock_all kas s) = calls s"
  "initializing (unlock_all kas s) = initializing s" "log (unlock_all kas s) = log s"
  "store (unlock_all kas s) = store s"
  unfolding unlock_all_def by (induction kas arbitrary: s; simp add: relock_same)+

lemma set_call_same: "ticks (set_call cid cp s) = ticks s"
  "fetches (set_call cid cp s) = fetches s" "initializing (set_call cid cp s) = initializing s"
  "log (set_call cid cp s) = log s" "store (set_call cid cp s) = store s"
  "heap (set_call cid cp s) = heap s"
  by (simp_all add: set_call_def)

lemma invoke_same:
  assumes "invoke env ob s = (x, s1)"
  shows "ticks s1 = ticks s" "fetches s1 = fetches s" "calls s1 = calls s"
    "initializing s1 = initializing s" "store s1 = store s" "heap s1 = heap s"
    "log s1 = log s @ [ob]"
  using assms by (auto simp: invoke_def)

lemma lock_child_same:
  assumes "lock_child i cs s = Some (cs1, new, s1)"
  shows "ticks s1 = ticks s" "fetches s1 = fetches s" "calls s1 = calls s"
    "initializing s1 = initializing s" "log s1 = log s" "store s1 = store s"
  using assms
  by (auto simp: lock_child_def relock_same split: if_splits child.splits option.splits sum.splits)

lemma getOrInsert_same:
  assumes "getOrInsertCachedValue env k h now s = (ph, s1)"
  shows "ticks s1 = ticks s" "fetches s1 = fetches s" "calls s1 = calls s" "store s1 = store s"
    "length (heap s1) = length (heap s)"
  using assms
  by (auto simp: getOrInsertCachedValue_def addToStore_def invoke_def refresh_def
      split: option.splits if_splits)

lemma afterWait_same:
  assumes "afterWait env k h now s = (ph, s1)"
  shows "ticks s1 = ticks s" "fetches s1 = fetches s" "calls s1 = calls s" "store s1 = store s"
    "length (heap s1) = length (heap s)"
  using assms getOrInsert_same[of env k h now s ph s1]
  by (auto simp: afterWait_def refresh_def split: option.splits)

lemma getCachedValue_new:
  assumes "getCachedValue env k s = (fid, s1)"
  shows "fid = length (fetches s) \<and> ticks s1 = ticks s + 1 \<and> calls s1 = calls s
       \<and> (\<exists>ph. fetches s1 = fetches s @ [\<lparr>fkey = k, fhash = hasher env k,
                                            fnow = clock env (ticks s), fphase = ph\<rparr>])"
proof -
  obtain ph s0 where g: "getOrInsertCachedValue env k (hasher env k) (clock env (ticks s))
      (s\<lparr>ticks := ticks s + 1\<rparr>) = (ph, s0)"
    by (cases "getOrInsertCachedValue env k (hasher env k) (clock env (ticks s))
      (s\<lparr>ticks := ticks s + 1\<rparr>)")
  from getOrInsert_same[OF g] show ?thesis
    using assms g by (auto simp: getCachedValue_def Let_def)
qed

lemma fetch_all_new:
  fixes cs :: "('k \<times> 'x child) list"
  assumes "fetch_all env ks s = (cs, s1)"
  shows "ticks s1 = ticks s + length ks \<and> calls s1 = calls s
       \<and> length (fetches s1) = length (fetches s) + length ks
       \<and> (\<forall>i < length (fetches s). fetches s1 ! i = fetches s ! i)
       \<and> (\<forall>j < length ks. fkey (fetches s1 ! (length (fetches s) + j)) = ks ! j
              \<and> fnow (fetches s1 ! (length (fetches s) + j)) = clock env (ticks s + j))
       \<and> cs = map (\<lambda>j. (ks ! j, Pending (length (fetches s) + j))) [0..<length ks]"
  using assms
proof (induction ks arbitrary: s cs s1)
  case Nil
  then show ?case by simp
next
  case (Cons k ks)
  obtain fid s0 where g: "getCachedValue env k s = (fid, s0)" by (cases "getCachedValue env k s")
  obtain cs0 :: "('k \<times> 'x child) list" and s2 where f: "fetch_all env ks s0 = (cs0, s2)"
    by (cases "fetch_all env ks s0 :: ('k \<times> 'x child) list \<times> _")
  from getCachedValue_new[OF g] obtain ph where n:
    "fid = length (fetches s)" "ticks s0 = ticks s + 1" "calls s0 = calls s"
    "fetches s0 = fetches s @ [\<lparr>fkey = k, fhash = hasher env k,
                                 fnow = clock env (ticks s), fphase = ph\<rparr>]"
    by blast
  note ih = Cons.IH[OF f]
  have r: "cs = (k, Pending fid) # cs0" "s1 = s2" using Cons.prems g f by auto
  have 1: "ticks s1 = ticks s + length (k # ks)" "calls s1 = calls s"
    "length (fetches s1) = length (fetches s) + length (k # ks)"
    using ih n r by auto
  have 2: "\<forall>i < length (fetches s). fetches s1 ! i = fetches s ! i"
    using ih n r by (auto simp: nth_append)
  have 3: "fkey (fetches s1 ! (length (fetches s) + j)) = (k # ks) ! j
         \<and> fnow (fetches s1 ! (length (fetches s) + j)) = clock env (ticks s + j)"
    if "j < length (k # ks)" for j
  proof (cases j)
    case 0
    then show ?thesis using ih n r by (auto simp: nth_append)
  next
    case (Suc j')
    then have "j' < length ks" using that by simp
    then show ?thesis using ih n r Suc by auto
  qed
  have 4: "cs = map (\<lambda>j. ((k # ks) ! j, Pending (length (fetches s) + j))) [0..<length (k # ks)]"
  proof -
    have "[0..<length (k # ks)] = 0 # map Suc [0..<length ks]"
      by (simp add: upt_conv_Cons map_Suc_upt del: upt_Suc)
    then show ?thesis using ih n r by (simp add: comp_def del: upt_Suc)
  qed
  from 1 2 3 4 show ?case by blast
qed

lemma trimmed_kept: "trimmed s s' \<Longrightarrow> kept s s'"
  by (simp add: trimmed_def kept_def)

lemma kept_fields:
  "kept s s1 \<Longrightarrow> ticks s' = ticks s1 \<Longrightarrow> fetches s' = fetches s1 \<Longrightarrow> kept s s'"
  by (simp add: kept_def)

lemma poll_kept: "poll fid s = Some s' \<Longrightarrow> kept s s'"
  by (auto simp: poll_def set_phase_kept split: if_splits)

lemma resume_kept:
  assumes "resume env fid s = Some s'"
  shows "kept s s'"
proof -
  let ?f = "fetches s ! fid"
  obtain ph s1 where a: "afterWait env (fkey ?f) (fhash ?f) (fnow ?f) s = (ph, s1)"
    by (cases "afterWait env (fkey ?f) (fhash ?f) (fnow ?f) s")
  have "kept s s1" using afterWait_same[OF a] by (simp add: kept_same)
  moreover have "s' = set_phase fid ph s1"
    using assms a by (auto simp: resume_def Let_def split: if_splits)
  ultimately show ?thesis using set_phase_kept kept_trans by blast
qed

lemma trimDone_kept: "trimDone fid s = Some s' \<Longrightarrow> kept s s'"
proof -
  assume a: "trimDone fid s = Some s'"
  have "kept s (s\<lparr>shrinkLock := False\<rparr>)" by (simp add: kept_def)
  then show ?thesis using a set_phase_kept[of "s\<lparr>shrinkLock := False\<rparr>"]
    by (auto simp: trimDone_def split: if_splits phase.splits intro: kept_trans)
qed

lemma finish_kept: "finish fid s = Some s' \<Longrightarrow> kept s s'"
proof -
  assume a: "finish fid s = Some s'"
  let ?s0 = "s\<lparr>initializing := initializing s - {fhash (fetches s ! fid)}\<rparr>"
  have "kept s ?s0" by (simp add: kept_def)
  then show ?thesis using a set_phase_kept[of ?s0]
    by (auto simp: finish_def split: if_splits phase.splits intro: kept_trans)
qed

lemma factoryDone_Inl_kept: "factoryDone env fid (Inl e) s = Some s' \<Longrightarrow> kept s s'"
proof -
  assume a: "factoryDone env fid (Inl e) s = Some s'"
  let ?s0 = "s\<lparr>initializing := initializing s - {fhash (fetches s ! fid)}\<rparr>"
  have "kept s ?s0" by (simp add: kept_def)
  then show ?thesis using a set_phase_kept[of ?s0]
    by (auto simp: factoryDone_def Let_def split: if_splits intro: kept_trans)
qed

lemma published_same: "ticks (published f v d s) = ticks s"
  "fetches (published f v d s) = fetches s" "calls (published f v d s) = calls s"
  "initializing (published f v d s) = initializing s"
  by (simp_all add: published_def)

lemma factoryDone_Inr_kept:
  assumes "wf s" "factoryDone env fid (Inr (v, d)) s = Some s'"
  shows "kept s s'"
proof -
  from assms(2) obtain r s1 where c:
    "shrinkCache env (fnow (fetches s ! fid)) (published (fetches s ! fid) v d s) = (r, s1)"
    "s' = set_phase fid
            (case r of None \<Rightarrow> Finishing (length (heap s)) None
                     | Some (t, rej) \<Rightarrow> Shrinking (length (heap s)) t rej) s1"
    by (rule factoryDone_Inr_cases)
  let ?p = "published (fetches s ! fid) v d s"
  have "wf ?p" using assms(1) by (rule wf_published)
  then have "trimmed ?p s1" using shrinkCache_trimmedD[OF _ c(1)] by (simp add: wf_def)
  then have "kept ?p s1" by (rule trimmed_kept)
  then have "kept s s1" by (simp add: kept_def published_same)
  then show ?thesis using c(2) set_phase_kept kept_trans by blast
qed

lemma destroyDone_kept: "destroyDone j ok s = Some s' \<Longrightarrow> kept s s'"
  by (auto simp: destroyDone_def kept_def split: if_splits)

lemma continue_kept:
  assumes "continue_call env cid i s = Some s'"
  shows "kept s s'"
proof -
  have "ticks s' = ticks s \<and> fetches s' = fetches s"
    using assms
    by (auto simp: continue_call_def set_call_same relock_same invoke_def
        dest: lock_child_same
        split: if_splits cphase.splits option.splits sum.splits child.splits)
  then show ?thesis by (simp add: kept_same)
qed

lemma allDone_kept:
  assumes "allDone env cid s = Some s'"
  shows "kept s s'"
proof -
  have "ticks s' = ticks s \<and> fetches s' = fetches s"
    using assms
    by (auto simp: allDone_def set_call_same unlock_all_same invoke_def
        split: if_splits cphase.splits option.splits)
  then show ?thesis by (simp add: kept_same)
qed

lemma transformerDone_kept: "transformerDone cid res s = Some s' \<Longrightarrow> kept s s'"
  by (auto simp: transformerDone_def set_call_same unlock_all_same relock_same
      split: if_splits cphase.splits intro!: kept_same)

lemma cleanupDone_kept: "cleanupDone cid s = Some s' \<Longrightarrow> kept s s'"
  by (auto simp: cleanupDone_def set_call_def kept_def
      split: if_splits cphase.splits option.splits)

lemma step_kept:
  assumes "wf s" "step env ev s = Some s'" "\<forall>rq. ev \<noteq> Call rq"
  shows "kept s s'"
proof (cases ev)
  case (FactoryDone fid res)
  show ?thesis
  proof (cases res)
    case (Inl e)
    then show ?thesis using assms FactoryDone by (auto simp: step_def intro: factoryDone_Inl_kept)
  next
    case (Inr vd)
    then show ?thesis using assms FactoryDone
      by (cases vd) (auto simp: step_def intro: factoryDone_Inr_kept)
  qed
qed (use assms in \<open>auto simp: step_def intro: poll_kept resume_kept trimDone_kept finish_kept
       destroyDone_kept continue_kept allDone_kept transformerDone_kept cleanupDone_kept\<close>)

lemma getOrInsert_refreshed:
  assumes "wf s" "getOrInsertCachedValue env k h now s = (Settled (Inr a), s1)"
  shows "timestamp (heap s1 ! a) = now"
proof (cases "map_of (store s) h")
  case None
  then show ?thesis using assms(2)
    by (auto simp: getOrInsertCachedValue_def addToStore_def invoke_def
        split: if_splits option.splits)
next
  case (Some b)
  then have "b < length (heap s)" using assms(1) by (auto simp: wf_def dest: map_of_SomeD)
  then show ?thesis using assms(2) Some
    by (auto simp: getOrInsertCachedValue_def addToStore_def invoke_def refresh_def
        split: if_splits option.splits)
qed

lemma afterWait_refreshed:
  assumes "wf s" "afterWait env k h now s = (Settled (Inr a), s1)"
  shows "timestamp (heap s1 ! a) = now"
proof (cases "map_of (store s) h")
  case None
  then show ?thesis using assms getOrInsert_refreshed[of s env k h now a s1]
    by (simp add: afterWait_def)
next
  case (Some b)
  then have "b < length (heap s)" using assms(1) by (auto simp: wf_def dest: map_of_SomeD)
  then show ?thesis using assms(2) Some by (auto simp: afterWait_def refresh_def)
qed

lemma getCachedValue_refreshed:
  assumes "wf s" "getCachedValue env k s = (fid, s1)"
    "fphase (fetches s1 ! length (fetches s)) = Settled (Inr a)"
  shows "timestamp (heap s1 ! a) = clock env (ticks s)"
proof -
  let ?s0 = "s\<lparr>ticks := ticks s + 1\<rparr>"
  obtain ph s0 where g: "getOrInsertCachedValue env k (hasher env k) (clock env (ticks s)) ?s0
      = (ph, s0)"
    by (cases "getOrInsertCachedValue env k (hasher env k) (clock env (ticks s)) ?s0")
  have s1: "s1 = s0\<lparr>fetches := fetches s0 @ [\<lparr>fkey = k, fhash = hasher env k,
                 fnow = clock env (ticks s), fphase = ph\<rparr>]\<rparr>"
    using assms(2) g by (simp add: getCachedValue_def Let_def)
  have "fetches s0 = fetches s" using getOrInsert_same(2)[OF g] by simp
  then have "ph = Settled (Inr a)" using assms(3) s1 by simp
  moreover have "wf ?s0" using assms(1) by (simp add: wf_def)
  ultimately have "timestamp (heap s0 ! a) = clock env (ticks s)"
    using getOrInsert_refreshed[of ?s0 env k "hasher env k" "clock env (ticks s)" a s0] g
    by simp
  then show ?thesis using s1 by simp
qed

lemma resume_refreshed:
  assumes "wf s" "resume env fid s = Some s'" "fphase (fetches s' ! fid) = Settled (Inr a)"
  shows "timestamp (heap s' ! a) = fnow (fetches s ! fid)"
proof -
  let ?f = "fetches s ! fid"
  obtain ph s1 where a: "afterWait env (fkey ?f) (fhash ?f) (fnow ?f) s = (ph, s1)"
    by (cases "afterWait env (fkey ?f) (fhash ?f) (fnow ?f) s")
  have r: "fid < length (fetches s)" "s' = set_phase fid ph s1"
    using assms(2) a by (auto simp: resume_def Let_def split: if_splits)
  have "fetches s1 = fetches s" using afterWait_same(2)[OF a] .
  then have "ph = Settled (Inr a)" using assms(3) r by (simp add: nth_set_phase)
  then have "timestamp (heap s1 ! a) = fnow ?f" using afterWait_refreshed[OF assms(1)] a by blast
  then show ?thesis using r(2) by (simp add: set_phase_same)
qed

lemma resume_hit:
  assumes "wf s" "resume env fid s = Some s'"
    "map_of (store s) (fhash (fetches s ! fid)) = Some a"
  shows "fphase (fetches s' ! fid) = Settled (Inr a)
     \<and> timestamp (heap s' ! a) = fnow (fetches s ! fid) \<and> log s' = log s"
proof -
  have "a < length (heap s)" using assms(1,3) by (auto simp: wf_def dest: map_of_SomeD)
  then show ?thesis using assms(2,3)
    by (auto simp: resume_def afterWait_def refresh_def set_phase_def Let_def split: if_splits)
qed

lemma resume_miss:
  assumes "resume env fid s = Some s'"
    "map_of (store s) (fhash (fetches s ! fid)) = None"
    "fhash (fetches s ! fid) \<notin> initializing s"
  shows "log s' = log s @ [FactoryCall (fkey (fetches s ! fid))]
     \<and> (throws env (length (log s)) = None \<longrightarrow> fphase (fetches s' ! fid) = Creating)"
  using assms
  by (auto simp: resume_def afterWait_def getOrInsertCachedValue_def addToStore_def invoke_def
      set_phase_def Let_def split: if_splits option.splits)

lemma resume_wait:
  assumes "resume env fid s = Some s'"
    "map_of (store s) (fhash (fetches s ! fid)) = None"
    "fhash (fetches s ! fid) \<in> initializing s"
  shows "fphase (fetches s' ! fid) = Waiting \<and> log s' = log s"
  using assms
  by (auto simp: resume_def afterWait_def getOrInsertCachedValue_def set_phase_def Let_def
      split: if_splits)

lemma getCachedValue_hit:
  assumes "wf s" "map_of (store s) (hasher env k) = Some a"
    "\<not> isExpired (options env) (heap s ! a) (clock env (ticks s))"
    "hasher env k \<notin> initializing s" "getCachedValue env k s = (fid, s1)"
  shows "fphase (fetches s1 ! length (fetches s)) = Settled (Inr a)
     \<and> timestamp (heap s1 ! a) = clock env (ticks s) \<and> log s1 = log s"
proof -
  have "a < length (heap s)" using assms(1,2) by (auto simp: wf_def dest: map_of_SomeD)
  then show ?thesis using assms(2-5)
    by (auto simp: getCachedValue_def getOrInsertCachedValue_def refresh_def Let_def)
qed

lemma factoryDone_created:
  assumes "wf s" "factoryDone env fid (Inr (v, d)) s = Some s'"
  shows "heap s' = heap s @ [\<lparr>cvalue = v, insertionTimestamp = fnow (fetches s ! fid),
                              timestamp = fnow (fetches s ! fid), locked = 0, destroy = d\<rparr>]"
proof -
  from assms(2) obtain r s1 where c:
    "shrinkCache env (fnow (fetches s ! fid)) (published (fetches s ! fid) v d s) = (r, s1)"
    "s' = set_phase fid
            (case r of None \<Rightarrow> Finishing (length (heap s)) None
                     | Some (t, rej) \<Rightarrow> Shrinking (length (heap s)) t rej) s1"
    by (rule factoryDone_Inr_cases)
  let ?p = "published (fetches s ! fid) v d s"
  have "wf ?p" using assms(1) by (rule wf_published)
  then have "trimmed ?p s1" using shrinkCache_trimmedD[OF _ c(1)] by (simp add: wf_def)
  then have "heap s1 = heap ?p" by (simp add: trimmed_def)
  then show ?thesis using c(2) by (simp add: set_phase_same published_def)
qed

lemma step_fetches:
  assumes w: "wf s" and st: "step env ev s = Some s'"
  shows "ticks s' = ticks s + length (keys_of ev) + (if ev = Call RCleanup then 1 else 0)
     \<and> length (fetches s') = length (fetches s) + length (keys_of ev)
     \<and> (\<forall>j < length (keys_of ev).
           fkey (fetches s' ! (length (fetches s) + j)) = keys_of ev ! j
           \<and> fnow (fetches s' ! (length (fetches s) + j)) = clock env (ticks s + j))
     \<and> (\<forall>i < length (fetches s). fnow (fetches s' ! i) = fnow (fetches s ! i))"
proof (cases "\<exists>rq. ev = Call rq")
  case False
  then have k: "kept s s'" using step_kept[OF w st] by blast
  have "keys_of ev = []" using False by (cases ev) auto
  then show ?thesis using k False by (auto simp: kept_def)
next
  case True
  then obtain rq where ev: "ev = Call rq" by blast
  then have c: "call env rq s = Some s'" using st by (simp add: step_def)
  show ?thesis
  proof (cases rq)
    case (RGet k)
    obtain fid s1 where g: "getCachedValue env k s = (fid, s1)" by (cases "getCachedValue env k s")
    then have "s' = s1\<lparr>calls := calls s1 @ [(rq, Get fid)]\<rparr>" using c RGet by (simp add: call_def)
    then show ?thesis using getCachedValue_new[OF g] ev RGet by (auto simp: nth_append)
  next
    case (RGetWith k)
    obtain fid s1 where g: "getCachedValue env k s = (fid, s1)" by (cases "getCachedValue env k s")
    then have "s' = s1\<lparr>calls := calls s1 @ [(rq, GetWith fid)]\<rparr>"
      using c RGetWith by (simp add: call_def)
    then show ?thesis using getCachedValue_new[OF g] ev RGetWith by (auto simp: nth_append)
  next
    case (RGetMultiple ks)
    obtain cs :: "('a \<times> 'b child) list" and s1 where g: "fetch_all env ks s = (cs, s1)"
      by (cases "fetch_all env ks s :: ('a \<times> 'b child) list \<times> _")
    then have "s' = s1\<lparr>calls := calls s1 @ [(rq, GetMultiple cs None)]\<rparr>"
      using c RGetMultiple by (simp add: call_def)
    then show ?thesis using fetch_all_new[OF g] ev RGetMultiple by simp
  next
    case (RGetMultipleWith ks)
    obtain cs :: "('a \<times> addr child) list" and s1 where g: "fetch_all env ks s = (cs, s1)"
      by (cases "fetch_all env ks s :: ('a \<times> addr child) list \<times> _")
    then have "s' = s1\<lparr>calls := calls s1 @ [(rq, GetMultipleWith cs None)]\<rparr>"
      using c RGetMultipleWith by (simp add: call_def)
    then show ?thesis using fetch_all_new[OF g] ev RGetMultipleWith by simp
  next
    case RCleanup
    then have "call env RCleanup s = Some s'" using c by simp
    then obtain r s1 where cc:
      "shrinkCache env (clock env (ticks s)) (s\<lparr>ticks := ticks s + 1\<rparr>) = (r, s1)"
      "s' = s1\<lparr>calls := calls s1 @ [(RCleanup, CleanupShrinking r)]\<rparr>"
      by (rule cleanup_cases)
    have "trimmed (s\<lparr>ticks := ticks s + 1\<rparr>) s1"
      using shrinkCache_trimmedD[OF _ cc(1)] w by (simp add: wf_def)
    then show ?thesis using cc(2) ev RCleanup by (simp add: trimmed_def)
  qed
qed

section \<open>Locked entries\<close>




section \<open>Expiry on get\<close>







section \<open>The size-based candidates of a trim pass\<close>

lemma oldest_split:
  fixes f :: "'a \<Rightarrow> int"
  assumes "distinct st"
  shows "distinct (rev (sort_key f st))
    \<and> set (take n (rev (sort_key f st))) \<union> set (drop n (rev (sort_key f st))) = set st
    \<and> set (take n (rev (sort_key f st))) \<inter> set (drop n (rev (sort_key f st))) = {}
    \<and> (\<forall>c \<in> set (drop n (rev (sort_key f st))).
          \<forall>k \<in> set (take n (rev (sort_key f st))). f c \<le> f k)"
proof -
  let ?xs = "rev (sort_key f st)"
  have d: "distinct ?xs" using assms by simp
  have "set (take n ?xs) \<union> set (drop n ?xs) = set (take n ?xs @ drop n ?xs)"
    by (rule set_append[symmetric])
  also have "\<dots> = set ?xs" by (simp only: append_take_drop_id)
  also have "\<dots> = set st" by simp
  finally have u: "set (take n ?xs) \<union> set (drop n ?xs) = set st" .
  have "distinct (take n ?xs @ drop n ?xs)" using d by (simp only: append_take_drop_id)
  then have i: "set (take n ?xs) \<inter> set (drop n ?xs) = {}"
    by (simp only: distinct_append)
  have "sort_key f st = rev (take n ?xs @ drop n ?xs)" by simp
  then have "sort_key f st = rev (drop n ?xs) @ rev (take n ?xs)" by (simp only: rev_append)
  moreover have "sorted (map f (sort_key f st))" by simp
  ultimately have "sorted (map f (rev (drop n ?xs) @ rev (take n ?xs)))" by simp
  then have o: "\<forall>c \<in> set (drop n ?xs). \<forall>k \<in> set (take n ?xs). f c \<le> f k"
    by (auto simp: sorted_append)
  from d u i o show ?thesis by blast
qed

text \<open>
  Claim C4. With a size bound \<open>S\<close> and more than \<open>S\<close> entries in the store, the
  size-based candidates of \<open>trim\<close> are the hashes of the store without \<open>S\<close> kept
  entries, each candidate once, and the \<open>timestamp\<close> of every candidate is at most
  the \<open>timestamp\<close> of every kept entry.
\<close>

theorem C4_size_candidates:
  assumes sz: "size_opt opts = Some S" and pos: "0 < S"
    and more: "nat S < length st" and dist: "distinct (map fst st)"
  shows "\<exists>kept. distinct kept \<and> length kept = nat S \<and> set kept \<subseteq> set st
           \<and> distinct (oldestValues opts hp st)
           \<and> set (oldestValues opts hp st) = fst ` (set st - set kept)
           \<and> (\<forall>c \<in> set st - set kept. \<forall>k \<in> set kept.
                 timestamp (hp ! snd c) \<le> timestamp (hp ! snd k))"
proof -
  let ?f = "\<lambda>(h, a). timestamp (hp ! a)"
  let ?xs = "rev (sort_key ?f st)"
  let ?kept = "take (nat S) ?xs"
  have dst: "distinct st" using dist by (rule distinct_map[THEN iffD1, THEN conjunct1])
  note sp = oldest_split[OF dst, where f = ?f and n = "nat S"]
  have old: "oldestValues opts hp st = map fst (drop (nat S) ?xs)"
    using sz pos by (simp add: oldestValues_def)
  have rest: "set (drop (nat S) ?xs) = set st - set ?kept"
    using sp by blast
  have inj: "inj_on fst (set st)" using dist by (simp add: distinct_map)
  have sub: "set (drop (nat S) ?xs) \<subseteq> set st" using sp by blast
  have 1: "distinct ?kept" using sp by (simp only: distinct_take)
  have 2: "length ?kept = nat S" using more by simp
  have 3: "set ?kept \<subseteq> set st" using sp by blast
  have "distinct (drop (nat S) ?xs)" using sp by (simp only: distinct_drop)
  then have 4: "distinct (oldestValues opts hp st)"
    unfolding old using inj sub
    by (simp only: distinct_map) (blast intro: inj_on_subset)
  have 5: "set (oldestValues opts hp st) = fst ` (set st - set ?kept)"
    unfolding old by (simp only: set_map rest)
  have 6: "\<forall>c \<in> set st - set ?kept. \<forall>k \<in> set ?kept.
             timestamp (hp ! snd c) \<le> timestamp (hp ! snd k)"
    using sp unfolding rest[symmetric] by (auto simp: case_prod_beta)
  from 1 2 3 4 5 6 show ?thesis by blast
qed

text \<open>
  Three entries last accessed at 4, 2 and 3 under a bound of 2: the one candidate is
  the entry accessed at 2.
\<close>

theorem C4_size_candidates_witness:
  "oldestValues \<lparr>size_opt = Some 2, expiry_opt = None\<rparr>
      [\<lparr>cvalue = (), insertionTimestamp = 1, timestamp = 4, locked = 0, destroy = None\<rparr>,
       \<lparr>cvalue = (), insertionTimestamp = 2, timestamp = 2, locked = 0, destroy = None\<rparr>,
       \<lparr>cvalue = (), insertionTimestamp = 3, timestamp = 3, locked = 0, destroy = None\<rparr>]
      [(''a'', 0), (''b'', 1), (''c'', 2)] = [''b'']
   \<and> (\<exists>kept. distinct kept \<and> length kept = nat 2
         \<and> set kept \<subseteq> set [(''a'', 0), (''b'', 1), (''c'', 2::nat)]
         \<and> set [''b''] = fst ` (set [(''a'', 0), (''b'', 1), (''c'', 2)] - set kept))"
proof -
  let ?opts = "\<lparr>size_opt = Some 2, expiry_opt = None\<rparr>"
  let ?hp = "[\<lparr>cvalue = (), insertionTimestamp = 1, timestamp = 4, locked = 0, destroy = None\<rparr>,
       \<lparr>cvalue = (), insertionTimestamp = 2, timestamp = 2, locked = 0, destroy = None\<rparr>,
       \<lparr>cvalue = (), insertionTimestamp = 3, timestamp = 3, locked = 0, destroy = None\<rparr>]"
  let ?st = "[(''a'', 0), (''b'', 1), (''c'', 2::nat)]"
  have ev: "oldestValues ?opts ?hp ?st = [''b'']"
    by (simp add: oldestValues_def)
  have "size_opt ?opts = Some 2" "(0::int) < 2" "nat 2 < length ?st" "distinct (map fst ?st)"
    by simp_all
  from C4_size_candidates[OF this, of ?hp] ev show ?thesis by auto
qed

section \<open>Lock counts around transformers\<close>

text \<open>
  Claim C5 at \<open>getMultipleWith(["a", "b"], t)\<close> when the factory rejects for "b":
  the call has rejected with the factory's error, every fetch is settled and nothing is
  pending, and the \<open>locked\<close> count of the entry of "a" stays at 1.
\<close>

theorem C5_lock_leak:
  "leak_run \<noteq> None
   \<and> calls (the leak_run) =
       [(RGetMultipleWith [''a'', ''b''],
         Abandoned [(''a'', ChildOk 0), (''b'', ChildErr (Thrown 7))] (Thrown 7))]
   \<and> map fphase (fetches (the leak_run)) = [Settled (Inr 0), Settled (Inl (Thrown 7))]
   \<and> store (the leak_run) = [(''a'', 0)]
   \<and> map locked (heap (the leak_run)) = [1]"
  by code_simp

section \<open>Errors inside a trim pass\<close>

text \<open>
  Claim C6 with size 1 and an expiry of 5 ms, \<open>get("a")\<close> at time 0 and \<open>get("b")\<close>
  at time 10: "a" is a candidate of both lists of the trim, its second callback reads
  \<open>store["a"].locked\<close> after the first has deleted the entry, and \<open>get("b")\<close> is
  rejected with that TypeError although its entry is in the store.
\<close>

theorem C6_trim_error_surfaces:
  "duplicate_run \<noteq> None
   \<and> calls (the duplicate_run) =
       [(RGet ''a'', Done (Value 1)), (RGet ''b'', Done (Rejected TypeError))]
   \<and> store (the duplicate_run) = [(''b'', 1)]
   \<and> log (the duplicate_run) = [FactoryCall ''a'', FactoryCall ''b'']"
  by code_simp

section \<open>A destroy callback that fails\<close>

text \<open>
  Claim C7 does not hold of an entry that a trim pass lists twice. With size 1 and an
  expiry of 5 ms, the trim pass that follows the creation of "b" at time 10 has "a" in
  its size-based list and in its expiry-based list: it calls the destroy callback of the
  entry of "a" twice. The first call rejects, and the entry is still in the store then;
  the second call resolves, and the callback of the pass that awaited it deletes the
  entry. The entry whose destroy callback rejected is removed by the same pass; no caller
  sees an error.
\<close>

theorem C7_failed_destroy_removed:
  "double_destroy_before \<noteq> None \<and> double_destroy_failed \<noteq> None
   \<and> double_destroy_run \<noteq> None
   \<and> store (the double_destroy_before) = [(''a'', 0), (''b'', 1)]
   \<and> log (the double_destroy_before)
       = [FactoryCall ''a'', FactoryCall ''b'', DestroyCall 0, DestroyCall 0]
   \<and> map rhash (removals (the double_destroy_before)) = [''a'', ''a'']
   \<and> store (the double_destroy_failed) = [(''a'', 0), (''b'', 1)]
   \<and> store (the double_destroy_run) = [(''b'', 1)]
   \<and> log (the double_destroy_run) = log (the double_destroy_before)
   \<and> map snd (calls (the double_destroy_run)) = [Done (Value 1), Done (Value 2)]"
  by code_simp

section \<open>The clock reading of a call\<close>

text \<open>
  Claim C9. In every reachable state, an event reads the clock once for each key it
  passes to \<open>getCachedValue\<close> (and once for a scheduled cleanup), and no other event
  reads it; the run of \<open>getCachedValue\<close> for the j-th key holds the j-th of these
  readings as its \<open>now\<close>, and no later event changes the \<open>now\<close> of a run. The object
  a run creates when its factory returns has that \<open>now\<close> as \<open>insertionTimestamp\<close> and
  \<open>timestamp\<close>, also when the run has waited and retried in between; and the entry a
  run returns after its wait, or at once, has its \<open>timestamp\<close> set to that \<open>now\<close>.
  A run that resumes after its wait and finds the hash in the store settles on that
  entry, sets its \<open>timestamp\<close> to the \<open>now\<close> of the run and calls nothing; one that
  finds no entry and no creation in flight calls the factory again and awaits it; one
  that finds no entry and a creation in flight waits again. A single-key call that
  finds an entry that is not expired, no creation in flight, settles on that entry at
  once and sets its \<open>timestamp\<close> to the clock reading of the call.
\<close>

theorem C9_clock_captured_once:
  assumes reach: "run env evs init = Some s" and st: "step env ev s = Some s'"
  shows "ticks s' = ticks s + length (keys_of ev) + (if ev = Call RCleanup then 1 else 0)
     \<and> length (fetches s') = length (fetches s) + length (keys_of ev)
     \<and> (\<forall>j < length (keys_of ev).
           fkey (fetches s' ! (length (fetches s) + j)) = keys_of ev ! j
           \<and> fnow (fetches s' ! (length (fetches s) + j)) = clock env (ticks s + j))
     \<and> (\<forall>i < length (fetches s). fnow (fetches s' ! i) = fnow (fetches s ! i))
     \<and> (\<forall>fid v d. ev = FactoryDone fid (Inr (v, d)) \<longrightarrow>
           heap s' = heap s @ [\<lparr>cvalue = v, insertionTimestamp = fnow (fetches s ! fid),
                                 timestamp = fnow (fetches s ! fid), locked = 0, destroy = d\<rparr>])
     \<and> (\<forall>fid a. ev = Resume fid \<and> fphase (fetches s' ! fid) = Settled (Inr a) \<longrightarrow>
           timestamp (heap s' ! a) = fnow (fetches s ! fid))
     \<and> (\<forall>k a. (ev = Call (RGet k) \<or> ev = Call (RGetWith k))
               \<and> fphase (fetches s' ! length (fetches s)) = Settled (Inr a) \<longrightarrow>
           timestamp (heap s' ! a) = clock env (ticks s))
     \<and> (\<forall>fid a. ev = Resume fid \<and> map_of (store s) (fhash (fetches s ! fid)) = Some a \<longrightarrow>
           fphase (fetches s' ! fid) = Settled (Inr a)
           \<and> timestamp (heap s' ! a) = fnow (fetches s ! fid) \<and> log s' = log s)
     \<and> (\<forall>fid. ev = Resume fid \<and> map_of (store s) (fhash (fetches s ! fid)) = None
               \<and> \<not> inherited (fhash (fetches s ! fid))
               \<and> fhash (fetches s ! fid) \<notin> initializing s \<longrightarrow>
           log s' = log s @ [FactoryCall (fkey (fetches s ! fid))]
           \<and> (throws env (length (log s)) = None \<longrightarrow> fphase (fetches s' ! fid) = Creating))
     \<and> (\<forall>fid. ev = Resume fid \<and> map_of (store s) (fhash (fetches s ! fid)) = None
               \<and> \<not> inherited (fhash (fetches s ! fid))
               \<and> fhash (fetches s ! fid) \<in> initializing s \<longrightarrow>
           fphase (fetches s' ! fid) = Waiting \<and> log s' = log s)
     \<and> (\<forall>k a. (ev = Call (RGet k) \<or> ev = Call (RGetWith k))
               \<and> map_of (store s) (hasher env k) = Some a
               \<and> \<not> isExpired (options env) (heap s ! a) (clock env (ticks s))
               \<and> hasher env k \<notin> initializing s \<longrightarrow>
           fphase (fetches s' ! length (fetches s)) = Settled (Inr a)
           \<and> timestamp (heap s' ! a) = clock env (ticks s) \<and> log s' = log s)"
proof -
  have w: "wf s" using reach by (rule reachable_wf)
  note A = step_fetches[OF w st]
  have B: "\<forall>fid v d. ev = FactoryDone fid (Inr (v, d)) \<longrightarrow>
           heap s' = heap s @ [\<lparr>cvalue = v, insertionTimestamp = fnow (fetches s ! fid),
                                 timestamp = fnow (fetches s ! fid), locked = 0, destroy = d\<rparr>]"
    using st factoryDone_created[OF w] by (auto simp: step_def)
  have C: "\<forall>fid a. ev = Resume fid \<and> fphase (fetches s' ! fid) = Settled (Inr a) \<longrightarrow>
           timestamp (heap s' ! a) = fnow (fetches s ! fid)"
    using st resume_refreshed[OF w] by (auto simp: step_def)
  have D: "timestamp (heap s' ! a) = clock env (ticks s)"
    if evk: "ev = Call (RGet k) \<or> ev = Call (RGetWith k)"
      and hit: "fphase (fetches s' ! length (fetches s)) = Settled (Inr a)" for k a
  proof -
    obtain fid s1 where g: "getCachedValue env k s = (fid, s1)" by (cases "getCachedValue env k s")
    have "heap s' = heap s1 \<and> fetches s' = fetches s1"
      using st evk g by (auto simp: step_def call_def)
    then show ?thesis using getCachedValue_refreshed[OF w g, of a] hit by simp
  qed
  have D': "\<forall>k a. (ev = Call (RGet k) \<or> ev = Call (RGetWith k))
               \<and> fphase (fetches s' ! length (fetches s)) = Settled (Inr a) \<longrightarrow>
           timestamp (heap s' ! a) = clock env (ticks s)"
    using D by blast
  have E: "\<forall>fid a. ev = Resume fid \<and> map_of (store s) (fhash (fetches s ! fid)) = Some a \<longrightarrow>
           fphase (fetches s' ! fid) = Settled (Inr a)
           \<and> timestamp (heap s' ! a) = fnow (fetches s ! fid) \<and> log s' = log s"
    using st resume_hit[OF w] by (auto simp: step_def)
  have F: "\<forall>fid. ev = Resume fid \<and> map_of (store s) (fhash (fetches s ! fid)) = None
               \<and> \<not> inherited (fhash (fetches s ! fid))
               \<and> fhash (fetches s ! fid) \<notin> initializing s \<longrightarrow>
           log s' = log s @ [FactoryCall (fkey (fetches s ! fid))]
           \<and> (throws env (length (log s)) = None \<longrightarrow> fphase (fetches s' ! fid) = Creating)"
    using st resume_miss[of env _ s s'] by (auto simp: step_def)
  have G: "\<forall>fid. ev = Resume fid \<and> map_of (store s) (fhash (fetches s ! fid)) = None
               \<and> \<not> inherited (fhash (fetches s ! fid))
               \<and> fhash (fetches s ! fid) \<in> initializing s \<longrightarrow>
           fphase (fetches s' ! fid) = Waiting \<and> log s' = log s"
    using st resume_wait[of env _ s s'] by (auto simp: step_def)
  have H: "fphase (fetches s' ! length (fetches s)) = Settled (Inr a)
           \<and> timestamp (heap s' ! a) = clock env (ticks s) \<and> log s' = log s"
    if evk: "ev = Call (RGet k) \<or> ev = Call (RGetWith k)"
      and hit: "map_of (store s) (hasher env k) = Some a"
        "\<not> isExpired (options env) (heap s ! a) (clock env (ticks s))"
        "hasher env k \<notin> initializing s" for k a
  proof -
    obtain fid s1 where g: "getCachedValue env k s = (fid, s1)" by (cases "getCachedValue env k s")
    have "heap s' = heap s1 \<and> fetches s' = fetches s1 \<and> log s' = log s1"
      using st evk g by (auto simp: step_def call_def)
    then show ?thesis using getCachedValue_hit[OF w hit g] by simp
  qed
  have H': "\<forall>k a. (ev = Call (RGet k) \<or> ev = Call (RGetWith k))
               \<and> map_of (store s) (hasher env k) = Some a
               \<and> \<not> isExpired (options env) (heap s ! a) (clock env (ticks s))
               \<and> hasher env k \<notin> initializing s \<longrightarrow>
           fphase (fetches s' ! length (fetches s)) = Settled (Inr a)
           \<and> timestamp (heap s' ! a) = clock env (ticks s) \<and> log s' = log s"
    using H by blast
  from A B C D' E F G H' show ?thesis by (elim conjE, intro conjI) assumption+
qed

text \<open>
  The second \<open>get("k")\<close> read the clock at 20 and waited for the creation in flight.
  When it resumes it finds no entry (the entry of "k" has been evicted) and calls the
  factory again. The clock has been read at 30 since; the factory's return reads no
  clock, and the object created holds 20. In the other run the second \<open>get("k")\<close>,
  which read the clock at 10, resumes and finds the entry inserted at 0: it settles on
  it and sets its \<open>timestamp\<close> to 10.
\<close>

theorem C9_clock_captured_once_witness:
  "\<exists>s s' u u' w w'. retry_before = Some s
     \<and> step (fixture (Some 1) None) (FactoryDone 2 (Inr (2, None))) s = Some s'
     \<and> ticks s = 4 \<and> ticks s' = 4 \<and> fnow (fetches s ! 2) = 20
     \<and> fnow (fetches s' ! 2) = 20
     \<and> heap s' = heap s @ [\<lparr>cvalue = 2, insertionTimestamp = 20, timestamp = 20, locked = 0,
                              destroy = None\<rparr>]
     \<and> retry_resuming = Some u \<and> step (fixture (Some 1) None) (Resume 2) u = Some u'
     \<and> map_of (store u) ''k'' = None \<and> log u' = log u @ [FactoryCall ''k'']
     \<and> fphase (fetches u' ! 2) = Creating
     \<and> wait_resuming = Some w \<and> step (fixture None None) (Resume 1) w = Some w'
     \<and> map_of (store w) ''k'' = Some 0 \<and> fnow (fetches w ! 1) = 10
     \<and> fphase (fetches w' ! 1) = Settled (Inr 0) \<and> timestamp (heap w' ! 0) = 10"
proof -
  let ?env = "fixture (Some 1) None"
  let ?ev = "FactoryDone 2 (Inr (2::nat, None))"
  have ne: "retry_before \<noteq> None" by code_simp
  then obtain s where rb: "retry_before = Some s" by blast
  have s: "run ?env
       [Call (RGet ''j''), FactoryDone 0 (Inr (0, None)), Finish 0, Continue 0 0,
        Call (RGet ''k''), Call (RGet ''k''), Call (RGet ''j''), Continue 3 0,
        FactoryDone 1 (Inr (1, None)), TrimDone 1, Finish 1, Continue 1 0,
        Poll 2, Resume 2] init = Some s"
    using rb by (simp only: retry_before_def)
  have eq: "the retry_before = s" by (simp only: rb option.sel)
  have "step ?env ?ev (the retry_before) \<noteq> None" by code_simp
  then obtain s' where s': "step ?env ?ev s = Some s'" unfolding eq by blast
  have c1: "ticks (the retry_before) = 4" by code_simp
  have c2: "map fnow (fetches (the retry_before)) = [0, 10, 20, 30]" by code_simp
  have c3: "length (map fnow (fetches s)) = 4" using c2 unfolding eq by simp
  have c4: "map fnow (fetches s) ! 2 = 20" using c2 unfolding eq by simp
  have f: "ticks s = 4" "fnow (fetches s ! 2) = 20" "2 < length (fetches s)"
    using c1 c3 c4 unfolding eq by simp_all
  note c = C9_clock_captured_once[OF s s']
  have t: "ticks s' = 4" using c[THEN conjunct1] f(1) by simp
  have n: "fnow (fetches s' ! 2) = 20"
    using c[THEN conjunct2, THEN conjunct2, THEN conjunct2, THEN conjunct1, rule_format, of 2]
      f(2,3) by simp
  have h: "heap s' = heap s @ [\<lparr>cvalue = 2, insertionTimestamp = 20, timestamp = 20,
                                 locked = 0, destroy = None\<rparr>]"
    using c[THEN conjunct2, THEN conjunct2, THEN conjunct2, THEN conjunct2, THEN conjunct1,
        rule_format, of 2 2 None, OF refl] f(2) by simp
  have first: "retry_before = Some s \<and> step ?env ?ev s = Some s'
     \<and> ticks s = 4 \<and> ticks s' = 4 \<and> fnow (fetches s ! 2) = 20 \<and> fnow (fetches s' ! 2) = 20
     \<and> heap s' = heap s @ [\<lparr>cvalue = 2, insertionTimestamp = 20, timestamp = 20, locked = 0,
                              destroy = None\<rparr>]"
    using rb s' f(1,2) t n h by simp

  have "retry_resuming \<noteq> None" by code_simp
  then obtain u where ru: "retry_resuming = Some u" by blast
  have u: "run ?env
       [Call (RGet ''j''), FactoryDone 0 (Inr (0, None)), Finish 0, Continue 0 0,
        Call (RGet ''k''), Call (RGet ''k''), Call (RGet ''j''), Continue 3 0,
        FactoryDone 1 (Inr (1, None)), TrimDone 1, Finish 1, Continue 1 0,
        Poll 2] init = Some u"
    using ru by (simp only: retry_resuming_def)
  have equ: "the retry_resuming = u" by (simp only: ru option.sel)
  have "step ?env (Resume 2) (the retry_resuming) \<noteq> None" by code_simp
  then obtain u' where u': "step ?env (Resume 2) u = Some u'" unfolding equ by blast
  have d1: "store (the retry_resuming) = [(''j'', 0)]" by code_simp
  have d2: "map fhash (fetches (the retry_resuming)) = [''j'', ''k'', ''k'', ''j'']" by code_simp
  have d3: "map fkey (fetches (the retry_resuming)) = [''j'', ''k'', ''k'', ''j'']" by code_simp
  have d4: "initializing (the retry_resuming) = {}" by code_simp
  have d5: "length (map fhash (fetches u)) = 4" "map fhash (fetches u) ! 2 = ''k''"
    "map fkey (fetches u) ! 2 = ''k''"
    using d2 d3 unfolding equ by simp_all
  have g: "fhash (fetches u ! 2) = ''k''" "fkey (fetches u ! 2) = ''k''"
    using d5 by simp_all
  have g2: "map_of (store u) ''k'' = None" "''k'' \<notin> initializing u"
    using d1 d4 unfolding equ by simp_all
  have g3: "\<not> inherited ''k''" "throws ?env (length (log u)) = None"
    by (simp_all add: inherited_def fixture_def)
  have m: "log u' = log u @ [FactoryCall ''k''] \<and> fphase (fetches u' ! 2) = Creating"
    using C9_clock_captured_once[OF u u', THEN conjunct2, THEN conjunct2, THEN conjunct2,
        THEN conjunct2, THEN conjunct2, THEN conjunct2, THEN conjunct2, THEN conjunct2,
        THEN conjunct1, rule_format, of 2] g g2 g3 by simp
  have second: "retry_resuming = Some u \<and> step ?env (Resume 2) u = Some u'
     \<and> map_of (store u) ''k'' = None \<and> log u' = log u @ [FactoryCall ''k'']
     \<and> fphase (fetches u' ! 2) = Creating"
    using ru u' g2(1) m by simp

  let ?env2 = "fixture None None :: string env"
  have "wait_resuming \<noteq> None" by code_simp
  then obtain w where rw: "wait_resuming = Some w" by blast
  have w: "run ?env2
       [Call (RGet ''k''), Call (RGet ''k''), FactoryDone 0 (Inr (1, None)), Finish 0,
        Poll 1] init = Some w"
    using rw by (simp only: wait_resuming_def)
  have eqw: "the wait_resuming = w" by (simp only: rw option.sel)
  have "step ?env2 (Resume 1) (the wait_resuming) \<noteq> None" by code_simp
  then obtain w' where w': "step ?env2 (Resume 1) w = Some w'" unfolding eqw by blast
  have e1: "store (the wait_resuming) = [(''k'', 0)]" by code_simp
  have e2: "map fhash (fetches (the wait_resuming)) = [''k'', ''k'']" by code_simp
  have e3: "map fnow (fetches (the wait_resuming)) = [0, 10]" by code_simp
  have e4: "length (map fhash (fetches w)) = 2" "map fhash (fetches w) ! 1 = ''k''"
    "map fnow (fetches w) ! 1 = 10"
    using e2 e3 unfolding eqw by simp_all
  have k: "fhash (fetches w ! 1) = ''k''" "fnow (fetches w ! 1) = 10"
    using e4 by simp_all
  have k2: "map_of (store w) ''k'' = Some 0" using e1 unfolding eqw by simp
  have r: "fphase (fetches w' ! 1) = Settled (Inr 0) \<and> timestamp (heap w' ! 0) = 10"
    using C9_clock_captured_once[OF w w', THEN conjunct2, THEN conjunct2, THEN conjunct2,
        THEN conjunct2, THEN conjunct2, THEN conjunct2, THEN conjunct2, THEN conjunct1,
        rule_format, of 1 0] k k2 by simp
  have third: "wait_resuming = Some w \<and> step ?env2 (Resume 1) w = Some w'
     \<and> map_of (store w) ''k'' = Some 0 \<and> fnow (fetches w ! 1) = 10
     \<and> fphase (fetches w' ! 1) = Settled (Inr 0) \<and> timestamp (heap w' ! 0) = 10"
    using rw w' k2 k(2) r by simp
  from first second third show ?thesis by blast
qed

section \<open>Replacement of an expired entry\<close>

text \<open>
  Claim C10. Every public get operation enters \<open>getCachedValue\<close> for each of its keys.
  When the hash of the key has an entry in the store that is expired at the clock
  reading of the call and no creation is in flight for the hash, \<open>getCachedValue\<close>
  invokes the factory and leaves the store and the objects as they are. When the
  factory then returns (in any reachable state where the old entry is still in the
  slot), the new object is allocated, the old object is in the store under no hash any
  more, no destroy call of the old object is made by that step, and the slot holds the
  new object: the store after the step is the store before it with the new object
  assigned to the slot, less what the trim pass of the step has deleted. The one
  exception to the last point: \<open>addToStore\<close> runs a trim pass
  right after the assignment, and when no other pass is running, the new object has no
  destroy callback and its hash is among the candidates of that pass (taken from the
  store with the new object in the slot), the pass may delete the new entry at once; then
  the slot is empty. When another pass is running, the store after the step is the store
  before it with the new object assigned to the slot. Nothing here depends on \<open>locked\<close>
  of the old object.
\<close>

theorem C10_expired_replacement:
  assumes "run env evs init = Some s"
    and "map_of (store s) (hasher env k) = Some a" and "hasher env k \<notin> initializing s"
    and "isExpired (options env) (heap s ! a) (clock env (ticks s))"
    and "run env evs' init = Some t"
    and "map_of (store t) (hasher env k) = Some a"
    and "fid < length (fetches t)" and "fphase (fetches t ! fid) = Creating"
    and "fhash (fetches t ! fid) = hasher env k"
  shows "(\<exists>s1. getCachedValue env k s = (length (fetches s), s1)
            \<and> log s1 = log s @ [FactoryCall k] \<and> store s1 = store s \<and> heap s1 = heap s)
       \<and> (\<exists>t' ls. step env (FactoryDone fid (Inr (v, d))) t = Some t'
            \<and> log t' = log t @ ls \<and> DestroyCall a \<notin> set ls
            \<and> heap t' = heap t @ [\<lparr>cvalue = v, insertionTimestamp = fnow (fetches t ! fid),
                                     timestamp = fnow (fetches t ! fid), locked = 0,
                                     destroy = d\<rparr>]
            \<and> a \<notin> snd ` set (store t')
            \<and> (map_of (store t') (hasher env k) = Some (length (heap t))
                \<or> map_of (store t') (hasher env k) = None \<and> \<not> shrinkLock t \<and> d = None
                  \<and> hasher env k
                      \<in> set (oldestValues (options env) (heap t')
                               (store_put (hasher env k) (length (heap t)) (store t))
                             @ expiredValues (options env) (heap t')
                                 (store_put (hasher env k) (length (heap t)) (store t))
                                 (fnow (fetches t ! fid))))
            \<and> (shrinkLock t \<longrightarrow>
                  store t' = store_put (hasher env k) (length (heap t)) (store t))
            \<and> (\<exists>P. store t'
                   = filter P (store_put (hasher env k) (length (heap t)) (store t))))"
  using getCachedValue_expired[OF assms(2,3,4)]
    replaced_entry[OF reachable_wf[OF assms(5)] assms(6,7,8,9), of env v d]
  by blast

text \<open>
  The entry of "x" is locked by \<open>getWith\<close> and expired at the next clock reading:
  \<open>get("x")\<close> invokes the factory, and when the factory returns the new object is
  allocated and the old, locked object is out of the store, its destroy not called.
\<close>

theorem C10_expired_replacement_witness:
  "\<exists>s t s1 t'. locked_expired = Some s \<and> replace_locked_before = Some t
     \<and> map_of (store s) ''x'' = Some 0 \<and> locked (heap s ! 0) = 1
     \<and> getCachedValue (fixture None (Some 5)) ''x'' s = (1, s1)
     \<and> log s1 = log s @ [FactoryCall ''x'']
     \<and> step (fixture None (Some 5)) (FactoryDone 1 (Inr (2, Some 1))) t = Some t'
     \<and> heap t' = heap t @ [\<lparr>cvalue = 2, insertionTimestamp = 10, timestamp = 10, locked = 0,
                              destroy = Some 1\<rparr>]
     \<and> 0 \<notin> snd ` set (store t') \<and> map_of (store t') ''x'' = Some 1
     \<and> (\<exists>ls. log t' = log t @ ls \<and> DestroyCall 0 \<notin> set ls)"
proof -
  let ?env = "fixture None (Some 5)"
  let ?evs = "[Call (RGetWith ''x''), FactoryDone 0 (Inr (1::nat, Some 0)), TrimDone 0, Finish 0,
        Continue 0 0]"
  obtain s where s: "run ?env ?evs init = Some s" by (simp add: engine)
  obtain t where t: "run ?env (?evs @ [Call (RGet ''x'')]) init = Some t" by (simp add: engine)
  have ls: "locked_expired = Some s" using s by (simp only: locked_expired_def)
  have lt: "replace_locked_before = Some t"
    using t by (simp only: replace_locked_before_def append.simps)
  have hs: "map_of (store s) (hasher ?env ''x'') = Some 0" "hasher ?env ''x'' \<notin> initializing s"
    using s by (auto simp: engine)
  have ex: "isExpired (options ?env) (heap s ! 0) (clock ?env (ticks s))"
    using s by (auto simp: engine)
  have lk: "locked (heap s ! 0) = 1" "length (fetches s) = 1"
    using s by (auto simp: engine)
  have ht: "map_of (store t) (hasher ?env ''x'') = Some 0" "1 < length (fetches t)"
    "fphase (fetches t ! 1) = Creating" "fhash (fetches t ! 1) = hasher ?env ''x''"
    "fnow (fetches t ! 1) = 10" "length (heap t) = 1"
    using t by (auto simp: engine)
  from C10_expired_replacement[OF s hs ex t ht(1-4), of 2 "Some 1"]
  obtain s1 t' l where r: "getCachedValue ?env ''x'' s = (length (fetches s), s1)"
    "log s1 = log s @ [FactoryCall ''x'']"
    "step ?env (FactoryDone 1 (Inr (2, Some 1))) t = Some t'"
    "log t' = log t @ l" "DestroyCall 0 \<notin> set l"
    "heap t' = heap t @ [\<lparr>cvalue = 2, insertionTimestamp = fnow (fetches t ! 1),
                           timestamp = fnow (fetches t ! 1), locked = 0, destroy = Some 1\<rparr>]"
    "0 \<notin> snd ` set (store t')"
    "map_of (store t') (hasher ?env ''x'') = Some (length (heap t))
     \<or> map_of (store t') (hasher ?env ''x'') = None \<and> \<not> shrinkLock t \<and> Some (1::nat) = None
       \<and> hasher ?env ''x''
           \<in> set (oldestValues (options ?env) (heap t')
                    (store_put (hasher ?env ''x'') (length (heap t)) (store t))
                  @ expiredValues (options ?env) (heap t')
                      (store_put (hasher ?env ''x'') (length (heap t)) (store t))
                      (fnow (fetches t ! 1)))"
    by blast
  have m: "map_of (store s) ''x'' = Some 0" using hs(1) by (simp add: fixture_def)
  have n: "map_of (store t') ''x'' = Some 1" using r(8) ht(6) by (simp add: fixture_def)
  show ?thesis
    using ls lt m lk(1) r(1)[unfolded lk(2)] r(2) r(3) r(6)[unfolded ht(5)] r(7) n r(4) r(5)
    by blast
qed

end
